theory Spec2Isabelle
  imports Main "HOL-Library.Multiset"
begin

section \<open>Data model of \<open>sockjs/cyclone/session.py\<close>\<close>

text \<open>
  Instants and durations. The source reads \<open>time.time()\<close>, a floating-point
  number, adds the session's \<open>expiry\<close> to it and compares the results;
  \<open>remove\<close> writes the constant \<open>-1\<close>. The model leaves the numbers open:
  instants and durations are of a type \<open>'t\<close> with a linear order and an addition,
  and nothing is assumed of the addition. What is proved holds whatever \<open>+\<close>
  computes, for the floating-point sum of the source as for exact numbers; the examples
  are evaluated over the integers. The reading of the clock is a parameter \<open>clock\<close>
  of every operation that calls \<open>self.time_module.time()\<close>.
\<close>

datatype SESSION_STATE = CONNECTING | OPEN | CLOSING | CLOSED

text \<open>
  The request of a transport handler, and the handler itself. \<open>hid\<close> is the
  identity of the handler object: the source compares handlers with \<open>!=\<close> on
  objects that define no equality, which is identity.
\<close>

record request =
  remote_ip :: string
  cookies :: "(string \<times> string) list"
  arguments :: "(string \<times> string list) list"

record handler =
  hid :: nat
  name :: string
  request :: request

record ConnectionInfo =
  ip :: string
  ci_cookies :: "(string \<times> string) list"
  ci_arguments :: "(string \<times> string list) list"

text \<open>\<open>BaseTransportMixin.get_conn_info\<close> (transports/base.py).\<close>

definition get_conn_info :: "handler \<Rightarrow> ConnectionInfo" where
  "get_conn_info h =
     \<lparr> ip = remote_ip (request h),
       ci_cookies = cookies (request h),
       ci_arguments = arguments (request h) \<rparr>"

text \<open>
  Modelled from the spec: the module \<open>sockjs.cyclone.proto\<close> is not part of the
  sources. Its frames are kept symbolic: \<open>ProtoDisconnect code message\<close> stands for
  the string \<open>proto.disconnect(code, message)\<close> (the spec's disconnect frame that
  encodes a code and a message), \<open>ProtoConnect\<close> for \<open>proto.CONNECT\<close> and
  \<open>ProtoHeartbeat\<close> for \<open>proto.HEARTBEAT\<close>. \<open>Raw\<close> is a string the
  session builds itself (the data frame \<open>'a[%s]'\<close>).
\<close>

datatype pack =
    Raw string
  | ProtoDisconnect int string
  | ProtoConnect
  | ProtoHeartbeat

text \<open>Callbacks handed to \<open>reactor.callLater(0, ...)\<close>.\<close>

datatype callback = CallFlush | CallClose

text \<open>
  Everything a session does to its collaborators, in the order it does it:
  \<open>handler.send_pack\<close>, \<open>handler.session_closed\<close>, the statistics object,
  the application's connection object, the log and the reactor. The collaborators are
  taken to return and not to call back into the session during the call; the one
  exception the source provides for, \<open>on_close()\<close> raising, is a field of the session
  below.
\<close>

datatype event =
    SendPack nat pack
  | SessionClosed nat
  | SessOpened string
  | SessClosed string
  | PackSent nat
  | PackRecv nat
  | OnClose
  | ConnectionMade
  | MessageReceived string
  | LogMsg string
  | CallLater callback
  | HeartbeatStart int
  | HeartbeatStop
  | HeartbeatReset

datatype error =
    AttributeError string
  | KeyError string
  | IndexError
  | Exception string

text \<open>The result of a call: what it returns, or the exception it raises.\<close>

datatype 'a res = Ret 'a | Raise error

text \<open>
  The fields of a \<open>Session\<close> object. An attribute that the constructors do not
  always define (\<open>expiry_date\<close>, \<open>transport_name\<close>) is an option: \<open>None\<close> is
  the attribute being absent, and reading it raises \<open>AttributeError\<close>.
  \<open>heartbeat_timer\<close> is whether \<open>_heartbeat_timer\<close> holds a timer.
  \<open>on_close_raises\<close> is the one fact about the application's connection object
  \<open>conn\<close> that the session depends on: whether its \<open>on_close()\<close> raises.
\<close>

record 't session =
  session_id :: string
  promoted :: "'t option"
  expiry :: "'t option"
  expiry_date :: "'t option"
  handler :: "handler option"
  state :: SESSION_STATE
  conn_info :: "ConnectionInfo option"
  close_reason :: "(int \<times> string) option"
  transport_name :: "string option"
  send_queue :: string
  send_expects_json :: bool
  heartbeat_timer :: bool
  heartbeat_interval :: int
  immediate_flush :: bool
  pending_flush :: bool
  verify_ip :: bool
  on_close_raises :: bool

text \<open>\<open>server.settings\<close>, as far as \<open>Session.__init__\<close> reads it.\<close>

record settings =
  heartbeat_delay :: int
  set_immediate_flush :: bool
  set_verify_ip :: bool

text \<open>
  \<open>Session.__init__\<close>, which runs \<open>SessionMixin.__init__\<close> and then
  \<open>BaseSession.__init__\<close>. \<open>rnd\<close> is the key \<open>_random_key()\<close> would return;
  it is used when \<open>session_id\<close> is \<open>None\<close> or empty (\<open>session_id or ...\<close>).
\<close>

definition Session_init ::
  "('t::plus) \<Rightarrow> string \<Rightarrow> bool \<Rightarrow> settings \<Rightarrow> string option \<Rightarrow> 't option \<Rightarrow> 't session" where
  "Session_init clock rnd conn_raises st sid exp =
     \<lparr> session_id = (case sid of None \<Rightarrow> rnd | Some i \<Rightarrow> if i = [] then rnd else i),
       promoted = None,
       expiry = exp,
       expiry_date = (case exp of None \<Rightarrow> None | Some e \<Rightarrow> Some (clock + e)),
       handler = None,
       state = CONNECTING,
       conn_info = None,
       close_reason = None,
       transport_name = None,
       send_queue = [],
       send_expects_json = False,
       heartbeat_timer = False,
       heartbeat_interval = heartbeat_delay st * 1000,
       immediate_flush = set_immediate_flush st,
       pending_flush = False,
       verify_ip = set_verify_ip st,
       on_close_raises = conn_raises \<rparr>"

section \<open>Operations of \<open>SessionMixin\<close>, \<open>BaseSession\<close> and \<open>Session\<close>\<close>

text \<open>
  Every operation takes the session and returns its result, the session after the call
  and the events of the call. When the call raises, the session is the one the exception
  leaves behind.
\<close>

type_synonym ('a, 't) call = "'a res \<times> 't session \<times> event list"

definition is_closed :: "'t session \<Rightarrow> bool" where
  "is_closed s = (state s = CLOSED \<or> state s = CLOSING)"

definition is_alive :: "('t::linorder) \<Rightarrow> 't session \<Rightarrow> bool res" where
  "is_alive clock s =
     (case expiry_date s of
        None \<Rightarrow> Raise (AttributeError ''expiry_date'')
      | Some d \<Rightarrow> Ret (d > clock))"

definition promote :: "('t::plus) \<Rightarrow> 't session \<Rightarrow> 't session" where
  "promote clock s =
     (case expiry s of
        None \<Rightarrow> s
      | Some e \<Rightarrow> s\<lparr>promoted := Some (clock + e)\<rparr>)"

definition get_close_reason :: "'t session \<Rightarrow> int \<times> string" where
  "get_close_reason s =
     (case close_reason s of
        None \<Rightarrow> (3000, ''Go away!'')
      | Some r \<Rightarrow> r)"

text \<open>\<open>BaseSession.set_handler\<close>.\<close>

definition base_set_handler :: "handler \<Rightarrow> 't session \<Rightarrow> (bool, 't) call" where
  "base_set_handler h s =
     (if handler s \<noteq> None then
        (Raise (Exception ''Attempted to overwrite BaseSession handler''), s, [])
      else
        let s1 = s\<lparr>handler := Some h, transport_name := Some (name h)\<rparr> in
        if conn_info s1 = None then
          (Ret True, s1\<lparr>conn_info := Some (get_conn_info h)\<rparr>, [SessOpened (name h)])
        else (Ret True, s1, []))"

text \<open>\<open>BaseSession.remove_handler\<close>.\<close>

definition base_remove_handler :: "handler \<Rightarrow> 't session \<Rightarrow> (unit, 't) call" where
  "base_remove_handler h s =
     (if map_option hid (handler s) \<noteq> Some (hid h) then
        (Raise (Exception ''Attempted to remove invalid handler''), s, [])
      else (Ret (), s\<lparr>handler := None\<rparr>, []))"

text \<open>
  \<open>BaseSession.close\<close>. The bare \<open>except\<close> swallows whatever \<open>on_close()\<close>
  raises and logs it; the \<open>finally\<close> block runs in both cases. Reading
  \<open>self.transport_name\<close> raises when no handler was ever attached.
\<close>

definition base_close :: "int \<Rightarrow> string \<Rightarrow> 't session \<Rightarrow> (unit, 't) call" where
  "base_close code message s =
     (if state s \<noteq> CLOSED then
        let evs = OnClose #
                  (if on_close_raises s then [LogMsg ''Failed to call on_close().''] else []);
            s1 = s\<lparr>state := CLOSED, close_reason := Some (code, message)\<rparr>
        in case transport_name s1 of
             None \<Rightarrow> (Raise (AttributeError ''transport_name''), s1, evs)
           | Some tn \<Rightarrow>
               (Ret (), s1,
                evs @ [SessClosed tn] @
                (case handler s1 of None \<Rightarrow> [] | Some h \<Rightarrow> [SessionClosed (hid h)]))
      else (Ret (), s, []))"

text \<open>\<open>Session.close\<close>.\<close>

definition close :: "int \<Rightarrow> string \<Rightarrow> 't session \<Rightarrow> (unit, 't) call" where
  "close code message s =
     (let evs0 = (if state s \<noteq> CLOSED then
                    (case handler s of
                       None \<Rightarrow> []
                     | Some h \<Rightarrow> [SendPack (hid h) (ProtoDisconnect code message)])
                  else [])
      in case base_close code message s of
           (r, s1, evs) \<Rightarrow> (r, s1, evs0 @ evs))"

text \<open>\<open>BaseSession.delayed_close\<close>: the close itself runs on the next reactor turn.\<close>

definition delayed_close :: "'t session \<Rightarrow> (unit, 't) call" where
  "delayed_close s = (Ret (), s\<lparr>state := CLOSING\<rparr>, [CallLater CallClose])"

text \<open>\<open>Session.stop_heartbeat\<close>, \<open>start_heartbeat\<close>, \<open>delay_heartbeat\<close>.\<close>

definition stop_heartbeat :: "'t session \<Rightarrow> (unit, 't) call" where
  "stop_heartbeat s =
     (if heartbeat_timer s then (Ret (), s\<lparr>heartbeat_timer := False\<rparr>, [HeartbeatStop])
      else (Ret (), s, []))"

definition start_heartbeat :: "'t session \<Rightarrow> (unit, 't) call" where
  "start_heartbeat s =
     (case stop_heartbeat s of
        (r, s1, evs) \<Rightarrow>
          (Ret (), s1\<lparr>heartbeat_timer := True\<rparr>, evs @ [HeartbeatStart (heartbeat_interval s1)]))"

definition delay_heartbeat :: "'t session \<Rightarrow> (unit, 't) call" where
  "delay_heartbeat s =
     (if heartbeat_timer s then (Ret (), s, [HeartbeatReset]) else (Ret (), s, []))"

text \<open>\<open>Session._heartbeat\<close>.\<close>

definition heartbeat :: "'t session \<Rightarrow> (unit, 't) call" where
  "heartbeat s =
     (case handler s of
        Some h \<Rightarrow> (Ret (), s, [SendPack (hid h) ProtoHeartbeat])
      | None \<Rightarrow> stop_heartbeat s)"

text \<open>\<open>Session.on_delete\<close>: \<open>close()\<close> is called with its default arguments.\<close>

definition on_delete :: "('t::plus) \<Rightarrow> bool \<Rightarrow> 't session \<Rightarrow> (unit, 't) call" where
  "on_delete clock forced s =
     (if \<not> forced \<and> handler s \<noteq> None \<and> \<not> is_closed s then
        (Ret (), promote clock s, [])
      else close 3000 ''Go away!'' s)"

text \<open>\<open>Session.set_handler\<close>.\<close>

definition set_handler :: "('t::plus) \<Rightarrow> handler \<Rightarrow> bool \<Rightarrow> 't session \<Rightarrow> (bool, 't) call" where
  "set_handler clock h start_hb s =
     (if handler s \<noteq> None then
        (Ret False, s, [SendPack (hid h) (ProtoDisconnect 2010 ''Another connection still open'')])
      else if verify_ip s \<and>
              (case conn_info s of
                 None \<Rightarrow> False
               | Some ci \<Rightarrow> remote_ip (request h) \<noteq> ip ci) then
        (Ret False, s,
         [LogMsg (''Attempted to attach to session '' @ session_id s @ '' ('' @
                  (case conn_info s of None \<Rightarrow> [] | Some ci \<Rightarrow> ip ci) @
                  '') from different IP ('' @ remote_ip (request h) @ '')''),
          SendPack (hid h)
            (ProtoDisconnect 2010 ''Attempted to connect to session from different IP'')])
      else if state s = CLOSING \<or> state s = CLOSED then
        (Ret False, s,
         [SendPack (hid h) (ProtoDisconnect (fst (get_close_reason s)) (snd (get_close_reason s)))])
      else
        case base_set_handler h s of
          (Raise e, s1, evs1) \<Rightarrow> (Raise e, s1, evs1)
        | (Ret _, s1, evs1) \<Rightarrow>
            let s2 = promote clock s1 in
            if start_hb then
              (case start_heartbeat s2 of (_, s3, evs3) \<Rightarrow> (Ret True, s3, evs1 @ evs3))
            else (Ret True, s2, evs1))"

text \<open>
  \<open>Session.verify_state\<close>, followed by \<open>BaseSession.verify_state\<close>. Without a
  handler, \<open>self.handler.send_pack\<close> is an attribute of \<open>None\<close>.
\<close>

definition verify_state :: "'t session \<Rightarrow> (unit, 't) call" where
  "verify_state s =
     (if state s = CONNECTING then
        (case handler s of
           None \<Rightarrow> (Raise (AttributeError ''send_pack''), s, [])
         | Some h \<Rightarrow>
             (Ret (), s\<lparr>state := OPEN\<rparr>, [SendPack (hid h) ProtoConnect, ConnectionMade]))
      else (Ret (), s, []))"

text \<open>\<open>Session.remove_handler\<close>.\<close>

definition remove_handler :: "('t::plus) \<Rightarrow> handler \<Rightarrow> 't session \<Rightarrow> (unit, 't) call" where
  "remove_handler clock h s =
     (case base_remove_handler h s of
        (Raise e, s1, evs1) \<Rightarrow> (Raise e, s1, evs1)
      | (Ret _, s1, evs1) \<Rightarrow>
          (case stop_heartbeat (promote clock s1) of
             (r, s2, evs2) \<Rightarrow> (r, s2, evs1 @ evs2)))"

text \<open>\<open>Session.flush\<close>.\<close>

definition flush :: "'t session \<Rightarrow> (unit, 't) call" where
  "flush s =
     (let s1 = s\<lparr>pending_flush := False\<rparr> in
      case handler s1 of
        None \<Rightarrow> (Ret (), s1, [])
      | Some h \<Rightarrow>
          if send_queue s1 = [] then (Ret (), s1, [])
          else (Ret (), s1\<lparr>send_queue := []\<rparr>,
                [SendPack (hid h) (Raw (''a['' @ send_queue s1 @ '']''))]))"

text \<open>
  \<open>Session.send_jsonified\<close>. \<open>msg\<close> is the byte string after the source's
  \<open>encode('utf-8')\<close>. A string is true when it is not empty.
\<close>

definition enqueue :: "string \<Rightarrow> 't session \<Rightarrow> 't session" where
  "enqueue msg s =
     (let s1 = (if send_queue s \<noteq> [] then s\<lparr>send_queue := send_queue s @ '',''\<rparr> else s)
      in s1\<lparr>send_queue := send_queue s1 @ msg\<rparr>)"

definition send_jsonified :: "string \<Rightarrow> bool \<Rightarrow> 't session \<Rightarrow> (unit, 't) call" where
  "send_jsonified msg stats s =
     (let (s2, evs2) =
        (if immediate_flush s then
           (case handler s of
              Some h \<Rightarrow>
                if send_queue s = [] then
                  (s, [SendPack (hid h) (Raw (''a['' @ msg @ '']''))])
                else (case flush (enqueue msg s) of (_, s1, evs1) \<Rightarrow> (s1, evs1))
            | None \<Rightarrow> (case flush (enqueue msg s) of (_, s1, evs1) \<Rightarrow> (s1, evs1)))
         else
           let s1 = enqueue msg s in
           if \<not> pending_flush s1 then (s1\<lparr>pending_flush := True\<rparr>, [CallLater CallFlush])
           else (s1, []))
      in (Ret (), s2, evs2 @ (if stats then [PackSent 1] else [])))"

text \<open>
  \<open>Session.send_message\<close>; \<open>json_encode\<close> is \<open>proto.json_encode\<close>, a parameter
  since the module is not part of the sources.
\<close>

definition send_message :: "('m \<Rightarrow> string) \<Rightarrow> 'm \<Rightarrow> bool \<Rightarrow> 't session \<Rightarrow> (unit, 't) call" where
  "send_message json_encode msg stats s = send_jsonified (json_encode msg) stats s"

text \<open>\<open>Session.messagesReceived\<close>.\<close>

definition messagesReceived :: "string list \<Rightarrow> 't session \<Rightarrow> (unit, 't) call" where
  "messagesReceived msg_list s =
     (Ret (), s, PackRecv (length msg_list) # map MessageReceived msg_list)"

section \<open>What the container does to one session\<close>

text \<open>
  \<open>SessionContainer.remove\<close> (sessioncontainer.py), as far as it touches the session
  it found: \<open>session.promoted = -1; session.on_delete(True)\<close>.
\<close>

definition remove_entry :: "('t::{one,plus,uminus}) \<Rightarrow> 't session \<Rightarrow> (unit, 't) call" where
  "remove_entry clock s = on_delete clock True (s\<lparr>promoted := Some (- 1)\<rparr>)"

text \<open>
  The body of the loop of \<open>SessionContainer.expire\<close> between \<open>heappop\<close> and the
  final \<open>heappush\<close> or \<open>del\<close>, for the popped \<open>top\<close>, here \<open>entry\<close>. It returns
  \<open>need_reschedule\<close>. \<open>current_time\<close> is the argument of \<open>expire\<close>,
  \<open>clock\<close> what \<open>time.time()\<close> reads inside \<open>promote\<close>.
\<close>

definition need_reschedule :: "('t::linorder) \<Rightarrow> 't session \<Rightarrow> bool" where
  "need_reschedule current_time entry =
     (case promoted entry of None \<Rightarrow> False | Some p \<Rightarrow> p > current_time)"

definition expire_entry :: "('t::{plus,linorder}) \<Rightarrow> 't \<Rightarrow> 't session \<Rightarrow> (bool, 't) call" where
  "expire_entry clock current_time entry =
     (let r1 = (if \<not> need_reschedule current_time entry then
                  (case on_delete clock False (entry\<lparr>promoted := None\<rparr>) of
                     (Raise e, t1, evs) \<Rightarrow> (Raise e, t1, evs)
                   | (Ret _, t1, evs) \<Rightarrow> (Ret (need_reschedule current_time t1), t1, evs))
                else (Ret True, entry, []))
      in case r1 of
           (Raise e, t1, evs) \<Rightarrow> (Raise e, t1, evs)
         | (Ret True, t1, evs) \<Rightarrow>
             (Ret True, t1\<lparr>expiry_date := promoted t1, promoted := None\<rparr>, evs)
         | (Ret False, t1, evs) \<Rightarrow> (Ret False, t1, evs))"

section \<open>Histories of one session\<close>

text \<open>
  The calls a session can receive from the transports, the application, the reactor and
  the container. \<open>OpRemove\<close> is the container's \<open>remove\<close> reaching the session,
  \<open>OpExpire now\<close> one iteration of the sweep with the session on top of the heap.
\<close>

datatype 't op =
    OpSetHandler handler bool
  | OpRemoveHandler handler
  | OpVerifyState
  | OpSendJsonified string bool
  | OpFlush
  | OpClose int string
  | OpDelayedClose
  | OpOnDelete bool
  | OpStartHeartbeat
  | OpStopHeartbeat
  | OpDelayHeartbeat
  | OpHeartbeat
  | OpMessagesReceived "string list"
  | OpRemove
  | OpExpire 't

text \<open>The session a call leaves behind, whether it returned or raised.\<close>

definition after :: "('a, 't) call \<Rightarrow> 't session" where
  "after c = fst (snd c)"

fun step :: "('t::{one,plus,uminus,linorder}) \<Rightarrow> 't op \<Rightarrow> 't session \<Rightarrow> 't session" where
  "step clock (OpSetHandler h hb) s = after (set_handler clock h hb s)"
| "step clock (OpRemoveHandler h) s = after (remove_handler clock h s)"
| "step clock OpVerifyState s = after (verify_state s)"
| "step clock (OpSendJsonified msg stats) s = after (send_jsonified msg stats s)"
| "step clock OpFlush s = after (flush s)"
| "step clock (OpClose code message) s = after (close code message s)"
| "step clock OpDelayedClose s = after (delayed_close s)"
| "step clock (OpOnDelete forced) s = after (on_delete clock forced s)"
| "step clock OpStartHeartbeat s = after (start_heartbeat s)"
| "step clock OpStopHeartbeat s = after (stop_heartbeat s)"
| "step clock OpDelayHeartbeat s = after (delay_heartbeat s)"
| "step clock OpHeartbeat s = after (heartbeat s)"
| "step clock (OpMessagesReceived ms) s = after (messagesReceived ms s)"
| "step clock OpRemove s = after (remove_entry clock s)"
| "step clock (OpExpire now) s = after (expire_entry clock now s)"

text \<open>A history: each call with the reading of the clock at which it happens.\<close>

fun run :: "(('t::{one,plus,uminus,linorder}) \<times> 't op) list \<Rightarrow> 't session \<Rightarrow> 't session" where
  "run [] s = s"
| "run ((clock, p) # rest) s = run rest (step clock p s)"

text \<open>Whether some \<open>set_handler\<close> of the history returned \<open>True\<close>.\<close>

fun attached_once :: "(('t::{one,plus,uminus,linorder}) \<times> 't op) list \<Rightarrow> 't session \<Rightarrow> bool" where
  "attached_once [] s = False"
| "attached_once ((clock, p) # rest) s =
     ((case p of
         OpSetHandler h hb \<Rightarrow> fst (set_handler clock h hb s) = Ret True
       | _ \<Rightarrow> False)
      \<or> attached_once rest (step clock p s))"

section \<open>The session container (sessioncontainer.py)\<close>

text \<open>
  The container holds references to session objects: the heap and the lookup map share
  them with the transports. A reference is a number and the store gives the object behind
  it, so a change to a session is seen through the map and through the heap alike.
\<close>

type_synonym 't store = "nat \<Rightarrow> 't session"

text \<open>
  \<open>heapq\<close> is Python's library module; these are its functions as the container uses
  them. \<open>cmp_lt x y\<close> is \<open>not y <= x\<close>, which for sessions is
  \<open>SessionMixin.__cmp__\<close>: the comparison of the two \<open>expiry_date\<close> attributes, an
  \<open>AttributeError\<close> when one is absent. A heap operation returns the list as the call
  leaves it, also when the comparison raises half way.
\<close>

definition cmp_lt :: "('t::linorder) store \<Rightarrow> nat \<Rightarrow> nat \<Rightarrow> bool res" where
  "cmp_lt st x y =
     (case expiry_date (st y) of
        None \<Rightarrow> Raise (AttributeError ''expiry_date'')
      | Some dy \<Rightarrow>
          (case expiry_date (st x) of
             None \<Rightarrow> Raise (AttributeError ''expiry_date'')
           | Some dx \<Rightarrow> Ret (\<not> dy \<le> dx)))"

text \<open>
  \<open>_siftdown\<close>: the loop, with \<open>newitem\<close> read by \<open>siftdown\<close> below.
\<close>

function siftdown_loop :: "('t::linorder) store \<Rightarrow> nat list \<Rightarrow> nat \<Rightarrow> nat \<Rightarrow> nat \<Rightarrow> unit res \<times> nat list" where
  "siftdown_loop st heap startpos pos newitem =
     (if pos > startpos then
        (case cmp_lt st newitem (heap ! ((pos - 1) div 2)) of
           Raise e \<Rightarrow> (Raise e, heap)
         | Ret b \<Rightarrow>
             if b then
               siftdown_loop st (heap[pos := heap ! ((pos - 1) div 2)]) startpos
                 ((pos - 1) div 2) newitem
             else (Ret (), heap[pos := newitem]))
      else (Ret (), heap[pos := newitem]))"
  by pat_completeness auto
termination
  by (relation "measure (\<lambda>(st, heap, startpos, pos, newitem). pos)") auto

definition siftdown :: "('t::linorder) store \<Rightarrow> nat list \<Rightarrow> nat \<Rightarrow> nat \<Rightarrow> unit res \<times> nat list" where
  "siftdown st heap startpos pos = siftdown_loop st heap startpos pos (heap ! pos)"

text \<open>
  \<open>_siftup\<close>: the choice of the smaller child, the loop that moves the hole down to
  a leaf, and the whole function.
\<close>

definition smaller_child :: "('t::linorder) store \<Rightarrow> nat list \<Rightarrow> nat \<Rightarrow> nat \<Rightarrow> nat res" where
  "smaller_child st heap endpos childpos =
     (let rightpos = childpos + 1 in
      if rightpos < endpos then
        (case cmp_lt st (heap ! childpos) (heap ! rightpos) of
           Raise e \<Rightarrow> Raise e
         | Ret b \<Rightarrow> Ret (if \<not> b then rightpos else childpos))
      else Ret childpos)"

lemma smaller_child_range:
  "smaller_child st heap endpos c = Ret c' \<Longrightarrow> c' = c \<or> (c' = c + 1 \<and> c + 1 < endpos)"
  by (auto simp: smaller_child_def Let_def split: if_splits res.splits)

function siftup_loop :: "('t::linorder) store \<Rightarrow> nat list \<Rightarrow> nat \<Rightarrow> nat \<Rightarrow> nat res \<times> nat list" where
  "siftup_loop st heap endpos pos =
     (if 2 * pos + 1 < endpos then
        (case smaller_child st heap endpos (2 * pos + 1) of
           Raise e \<Rightarrow> (Raise e, heap)
         | Ret childpos \<Rightarrow> siftup_loop st (heap[pos := heap ! childpos]) endpos childpos)
      else (Ret pos, heap))"
  by pat_completeness auto
termination
  by (relation "measure (\<lambda>(st, heap, endpos, pos). endpos - pos)")
     (auto dest!: smaller_child_range)

definition siftup :: "('t::linorder) store \<Rightarrow> nat list \<Rightarrow> nat \<Rightarrow> unit res \<times> nat list" where
  "siftup st heap pos =
     (let endpos = length heap; startpos = pos; newitem = heap ! pos in
      case siftup_loop st heap endpos pos of
        (Raise e, heap1) \<Rightarrow> (Raise e, heap1)
      | (Ret pos1, heap1) \<Rightarrow> siftdown st (heap1[pos1 := newitem]) startpos pos1)"

text \<open>
  \<open>heappush\<close> and \<open>heappop\<close>. \<open>heap.pop()\<close> on an empty list raises
  \<open>IndexError\<close>.
\<close>

definition heappush :: "('t::linorder) store \<Rightarrow> nat list \<Rightarrow> nat \<Rightarrow> unit res \<times> nat list" where
  "heappush st heap item = siftdown st (heap @ [item]) 0 (length (heap @ [item]) - 1)"

definition heappop :: "('t::linorder) store \<Rightarrow> nat list \<Rightarrow> nat res \<times> nat list" where
  "heappop st heap =
     (if heap = [] then (Raise IndexError, heap)
      else
        let lastelt = last heap; heap1 = butlast heap in
        if heap1 \<noteq> [] then
          (case siftup st (heap1[0 := lastelt]) 0 of
             (Raise e, heap2) \<Rightarrow> (Raise e, heap2)
           | (Ret _, heap2) \<Rightarrow> (Ret (heap1 ! 0), heap2))
        else (Ret lastelt, heap1))"

text \<open>
  The state of the program: the session objects, the container's \<open>_items\<close> and
  \<open>_queue\<close>, and the events so far.
\<close>

record 't world =
  store :: "nat \<Rightarrow> 't session"
  items :: "string \<Rightarrow> nat option"
  queue :: "nat list"
  trace :: "event list"

text \<open>
  \<open>SessionContainer.add\<close>, \<open>get\<close> and \<open>remove\<close> (sessioncontainer.py); the
  session is given by its reference.
\<close>

definition add :: "nat \<Rightarrow> ('t::linorder) world \<Rightarrow> unit res \<times> 't world" where
  "add r w =
     (let w1 = w\<lparr>items := (items w)(session_id (store w r) \<mapsto> r)\<rparr> in
      if expiry (store w1 r) \<noteq> None then
        (case heappush (store w1) (queue w1) r of (res, q) \<Rightarrow> (res, w1\<lparr>queue := q\<rparr>))
      else (Ret (), w1))"

definition get :: "string \<Rightarrow> 't world \<Rightarrow> nat option" where
  "get sid w = items w sid"

definition remove :: "('t::{one,plus,uminus}) \<Rightarrow> string \<Rightarrow> 't world \<Rightarrow> bool res \<times> 't world" where
  "remove clock sid w =
     (case items w sid of
        None \<Rightarrow> (Ret False, w)
      | Some r \<Rightarrow>
          (case remove_entry clock (store w r) of
             (Raise e, s1, evs) \<Rightarrow>
               (Raise e, w\<lparr>store := (store w)(r := s1), trace := trace w @ evs\<rparr>)
           | (Ret _, s1, evs) \<Rightarrow>
               (Ret True, w\<lparr>store := (store w)(r := s1), trace := trace w @ evs,
                             items := (items w)(sid := None)\<rparr>)))"

text \<open>
  One iteration of the \<open>while\<close> loop of \<open>SessionContainer.expire\<close>: it leaves
  the loop (\<open>break\<close>, the loop condition, or an exception) or goes round again.
  \<open>del self._items[top.session_id]\<close> raises \<open>KeyError\<close> when the map has no
  such key. \<open>clock\<close> is what \<open>time.time()\<close> reads during the call.
\<close>

datatype 't loop = Exit "unit res" "'t world" | Next "'t world"

definition pop_and_visit :: "('t::{plus,linorder}) \<Rightarrow> 't \<Rightarrow> 't world \<Rightarrow> 't loop" where
  "pop_and_visit clock current_time w =
     (case heappop (store w) (queue w) of
        (Raise e, q1) \<Rightarrow> Exit (Raise e) (w\<lparr>queue := q1\<rparr>)
      | (Ret top_r, q1) \<Rightarrow>
          (case expire_entry clock current_time (store w top_r) of
             (Raise e, t1, evs) \<Rightarrow>
               Exit (Raise e)
                 (w\<lparr>queue := q1, store := (store w)(top_r := t1), trace := trace w @ evs\<rparr>)
           | (Ret need, t1, evs) \<Rightarrow>
               let w1 = w\<lparr>queue := q1, store := (store w)(top_r := t1),
                           trace := trace w @ evs\<rparr>
               in if need then
                    (case heappush (store w1) (queue w1) top_r of
                       (Raise e, q2) \<Rightarrow> Exit (Raise e) (w1\<lparr>queue := q2\<rparr>)
                     | (Ret _, q2) \<Rightarrow> Next (w1\<lparr>queue := q2\<rparr>))
                  else
                    (case items w1 (session_id t1) of
                       None \<Rightarrow> Exit (Raise (KeyError (session_id t1))) w1
                     | Some _ \<Rightarrow> Next (w1\<lparr>items := (items w1)(session_id t1 := None)\<rparr>))))"

definition expire_iter :: "('t::{plus,linorder}) \<Rightarrow> 't \<Rightarrow> 't world \<Rightarrow> 't loop" where
  "expire_iter clock current_time w =
     (case queue w of
        [] \<Rightarrow> Exit (Ret ()) w
      | top_r # _ \<Rightarrow>
          (case promoted (store w top_r) of
             Some _ \<Rightarrow> pop_and_visit clock current_time w
           | None \<Rightarrow>
               (case expiry_date (store w top_r) of
                  None \<Rightarrow> Exit (Raise (AttributeError ''expiry_date'')) w
                | Some d \<Rightarrow>
                    if d > current_time then Exit (Ret ()) w
                    else pop_and_visit clock current_time w)))"

text \<open>
  The entries the loop does not stop at, and the measure that shows the loop ends: every
  entry of the heap counts once, and once more while the loop would not stop at it.
\<close>

definition due :: "('t::linorder) \<Rightarrow> 't session \<Rightarrow> bool" where
  "due current_time s =
     (\<not> (promoted s = None \<and>
         (case expiry_date s of None \<Rightarrow> False | Some d \<Rightarrow> d > current_time)))"

definition weight :: "('t::linorder) \<Rightarrow> 't session \<Rightarrow> nat" where
  "weight current_time s = (if due current_time s then 2 else 1)"

definition sweep_measure :: "('t::linorder) \<Rightarrow> 't world \<Rightarrow> nat" where
  "sweep_measure current_time w = sum_list (map (\<lambda>r. weight current_time (store w r)) (queue w))"

section \<open>Example values\<close>

definition ex_handler_a :: "handler" where
  "ex_handler_a =
     \<lparr> hid = 1, name = ''xhr'',
       request = \<lparr> remote_ip = ''10.0.0.1'', cookies = [], arguments = [] \<rparr> \<rparr>"

definition ex_handler_b :: "handler" where
  "ex_handler_b =
     \<lparr> hid = 2, name = ''websocket'',
       request = \<lparr> remote_ip = ''10.0.0.2'', cookies = [], arguments = [] \<rparr> \<rparr>"

definition ex_settings :: "settings" where
  "ex_settings = \<lparr> heartbeat_delay = 25, set_immediate_flush = False, set_verify_ip = True \<rparr>"

text \<open>A session with id \<open>abc\<close> and an expiry of 5, created at time 0.\<close>

definition ex_session :: "int session" where
  "ex_session = Session_init 0 ''rnd'' False ex_settings (Some ''abc'') (Some 5)"

lemmas ex_defs =
  ex_handler_a_def ex_handler_b_def ex_settings_def ex_session_def Session_init_def

lemmas call_defs =
  set_handler_def base_set_handler_def remove_handler_def base_remove_handler_def
  close_def base_close_def delayed_close_def on_delete_def verify_state_def
  flush_def send_jsonified_def enqueue_def promote_def is_closed_def
  start_heartbeat_def stop_heartbeat_def delay_heartbeat_def heartbeat_def
  messagesReceived_def get_conn_info_def get_close_reason_def
  remove_entry_def expire_entry_def need_reschedule_def after_def

section \<open>Rejected attachments\<close>

text \<open>
  C4. On a session that has a handler attached, \<open>set_handler\<close> with any handler
  returns \<open>False\<close>, sends that handler one pack, the disconnect frame with code 2010
  and message "Another connection still open", and nothing else happens: the session
  after the call is the session before it, in every field.
\<close>

theorem set_handler_occupied:
  assumes "handler s = Some h0"
  shows "set_handler clock h start_hb s =
           (Ret False, s,
            [SendPack (hid h) (ProtoDisconnect 2010 ''Another connection still open'')])"
  using assms by (simp add: set_handler_def)

theorem set_handler_occupied_witness:
  "handler (after (set_handler 0 ex_handler_a True ex_session)) = Some ex_handler_a \<and>
   set_handler 7 ex_handler_b True (after (set_handler 0 ex_handler_a True ex_session)) =
     (Ret False, after (set_handler 0 ex_handler_a True ex_session),
      [SendPack 2 (ProtoDisconnect 2010 ''Another connection still open'')])"
proof -
  have att: "handler (after (set_handler 0 ex_handler_a True ex_session)) = Some ex_handler_a"
    by (simp add: ex_defs call_defs)
  have "hid ex_handler_b = 2"
    by (simp add: ex_handler_b_def)
  with att set_handler_occupied [OF att, of 7 ex_handler_b True] show ?thesis
    by simp
qed

text \<open>
  C5. With IP verification on, no handler attached and connection info recorded,
  \<open>set_handler\<close> with a handler whose remote IP is not the recorded one returns
  \<open>False\<close>, logs the attempt, sends that handler the disconnect frame with code 2010,
  and leaves the session as it was: no handler is set and the state is the same.
\<close>

theorem set_handler_ip_mismatch:
  assumes "verify_ip s" and "handler s = None" and "conn_info s = Some ci"
      and "remote_ip (request h) \<noteq> ip ci"
  shows "\<exists>line. set_handler clock h start_hb s =
           (Ret False, s,
            [LogMsg line,
             SendPack (hid h)
               (ProtoDisconnect 2010 ''Attempted to connect to session from different IP'')])"
  using assms by (simp add: set_handler_def)

theorem set_handler_ip_mismatch_witness:
  "verify_ip (run [(0, OpSetHandler ex_handler_a True), (1, OpRemoveHandler ex_handler_a)] ex_session) \<and>
   handler (run [(0, OpSetHandler ex_handler_a True), (1, OpRemoveHandler ex_handler_a)] ex_session) = None \<and>
   conn_info (run [(0, OpSetHandler ex_handler_a True), (1, OpRemoveHandler ex_handler_a)] ex_session) =
     Some (get_conn_info ex_handler_a) \<and>
   remote_ip (request ex_handler_b) \<noteq> ip (get_conn_info ex_handler_a) \<and>
   (\<exists>line. set_handler 2 ex_handler_b True
      (run [(0, OpSetHandler ex_handler_a True), (1, OpRemoveHandler ex_handler_a)] ex_session) =
        (Ret False,
         run [(0, OpSetHandler ex_handler_a True), (1, OpRemoveHandler ex_handler_a)] ex_session,
         [LogMsg line,
          SendPack 2
            (ProtoDisconnect 2010 ''Attempted to connect to session from different IP'')]))"
proof -
  let ?s = "run [(0, OpSetHandler ex_handler_a True), (1, OpRemoveHandler ex_handler_a)] ex_session"
  have a: "verify_ip ?s" and b: "handler ?s = None"
    and c: "conn_info ?s = Some (get_conn_info ex_handler_a)"
    by (simp_all add: ex_defs call_defs)
  have d: "remote_ip (request ex_handler_b) \<noteq> ip (get_conn_info ex_handler_a)"
    by (simp add: ex_defs get_conn_info_def)
  have e: "hid ex_handler_b = 2"
    by (simp add: ex_handler_b_def)
  from set_handler_ip_mismatch [OF a b c d, of 2 True] a b c d e show ?thesis
    by simp
qed

section \<open>Reading the outcome of a call\<close>

definition events :: "('a, 't) call \<Rightarrow> event list" where
  "events c = snd (snd c)"

text \<open>The disconnect frames among the packs sent, and the session-closed statistics updates.\<close>

definition disconnect_frames :: "event list \<Rightarrow> event list" where
  "disconnect_frames evs =
     filter (\<lambda>e. case e of SendPack _ (ProtoDisconnect _ _) \<Rightarrow> True | _ \<Rightarrow> False) evs"

definition sess_closed_updates :: "event list \<Rightarrow> event list" where
  "sess_closed_updates evs = filter (\<lambda>e. case e of SessClosed _ \<Rightarrow> True | _ \<Rightarrow> False) evs"

definition scheduled_flushes :: "event list \<Rightarrow> event list" where
  "scheduled_flushes evs = filter (\<lambda>e. e = CallLater CallFlush) evs"

definition sent_packs :: "event list \<Rightarrow> event list" where
  "sent_packs evs = filter (\<lambda>e. case e of SendPack _ _ \<Rightarrow> True | _ \<Rightarrow> False) evs"

definition stats_events :: "bool \<Rightarrow> nat \<Rightarrow> event list" where
  "stats_events stats n = (if stats then replicate n (PackSent 1) else [])"

text \<open>
  The fragments of a burst joined with commas in call order, as the specification writes
  the content of the data frame: \<open>f1 + "," + f2 + ... + "," + fn\<close>.
\<close>

fun comma_join :: "string list \<Rightarrow> string" where
  "comma_join [] = []"
| "comma_join [f] = f"
| "comma_join (f # g # fs) = f @ '','' @ comma_join (g # fs)"

text \<open>
  A burst: \<open>send_jsonified\<close> called once for each fragment, in order, with nothing in
  between. It returns the session after the last call and the events of all calls.
\<close>

fun send_burst :: "string list \<Rightarrow> bool \<Rightarrow> 't session \<Rightarrow> 't session \<times> event list" where
  "send_burst [] stats s = (s, [])"
| "send_burst (f # fs) stats s =
     (case send_jsonified f stats s of
        (_, s1, evs1) \<Rightarrow>
          (case send_burst fs stats s1 of (s2, evs2) \<Rightarrow> (s2, evs1 @ evs2)))"

section \<open>Closing a session\<close>

text \<open>\<open>Session.close\<close> with \<open>BaseSession.close\<close> unfolded into it.\<close>

lemma close_cases:
  "close code message s =
     (if state s = CLOSED then (Ret (), s, [])
      else
        (case transport_name s of
           None \<Rightarrow> Raise (AttributeError ''transport_name'')
         | Some tn \<Rightarrow> Ret (),
         s\<lparr>state := CLOSED, close_reason := Some (code, message)\<rparr>,
         (case handler s of
            None \<Rightarrow> []
          | Some h \<Rightarrow> [SendPack (hid h) (ProtoDisconnect code message)])
         @ OnClose # (if on_close_raises s then [LogMsg ''Failed to call on_close().''] else [])
         @ (case transport_name s of
              None \<Rightarrow> []
            | Some tn \<Rightarrow>
                SessClosed tn #
                (case handler s of None \<Rightarrow> [] | Some h \<Rightarrow> [SessionClosed (hid h)]))))"
  by (simp add: close_def base_close_def Let_def split: option.splits)

lemma after_close:
  "after (close code message s) =
     (if state s = CLOSED then s
      else s\<lparr>state := CLOSED, close_reason := Some (code, message)\<rparr>)"
  by (simp add: close_cases after_def)

lemma after_on_delete:
  "after (on_delete clock forced s) =
     (if \<not> forced \<and> handler s \<noteq> None \<and> \<not> is_closed s then promote clock s
      else after (close 3000 ''Go away!'' s))"
  by (simp add: on_delete_def after_def)

lemma promote_fields [simp]:
  "state (promote clock s) = state s"
  "close_reason (promote clock s) = close_reason s"
  "handler (promote clock s) = handler s"
  "transport_name (promote clock s) = transport_name s"
  "session_id (promote clock s) = session_id s"
  "expiry (promote clock s) = expiry s"
  by (simp_all add: promote_def split: option.splits)

lemma close_twice_noop:
  "close code2 message2 (after (close code message s)) =
     (Ret (), after (close code message s), [])"
  by (simp add: close_cases after_def)

section \<open>Invariants of a session's history\<close>

definition reason_inv :: "'t session \<Rightarrow> bool" where
  "reason_inv s =
     ((state s = CLOSED \<longrightarrow> close_reason s \<noteq> None) \<and>
      (close_reason s \<noteq> None \<longrightarrow> state s = CLOSED \<or> state s = CLOSING))"

definition name_inv :: "'t session \<Rightarrow> bool" where
  "name_inv s = (handler s \<noteq> None \<longrightarrow> transport_name s \<noteq> None)"

lemma reason_inv_step: "reason_inv s \<Longrightarrow> reason_inv (step clock p s)"
  apply (cases p)
  apply (simp_all add: after_close after_on_delete)
  apply (auto simp: reason_inv_def call_defs Let_def
         split: option.splits if_splits res.splits bool.splits prod.splits)
  done

lemma name_inv_step: "name_inv s \<Longrightarrow> name_inv (step clock p s)"
  apply (cases p)
  apply (simp_all add: after_close after_on_delete)
  apply (auto simp: name_inv_def call_defs Let_def
         split: option.splits if_splits res.splits bool.splits prod.splits)
  done

lemma reason_inv_run: "reason_inv s \<Longrightarrow> reason_inv (run ops s)"
  by (induction ops arbitrary: s) (auto simp: reason_inv_step)

lemma name_inv_run: "name_inv s \<Longrightarrow> name_inv (run ops s)"
  by (induction ops arbitrary: s) (auto simp: name_inv_step)

lemma reason_inv_init: "reason_inv (Session_init clock rnd raises st sid exp)"
  by (simp add: reason_inv_def Session_init_def)

lemma name_inv_init: "name_inv (Session_init clock rnd raises st sid exp)"
  by (simp add: name_inv_def Session_init_def)

lemma transport_name_step:
  "transport_name (step clock p s) =
     (case p of
        OpSetHandler h hb \<Rightarrow>
          if fst (set_handler clock h hb s) = Ret True then Some (name h)
          else transport_name s
      | _ \<Rightarrow> transport_name s)"
  apply (cases p)
  apply (simp_all add: after_close after_on_delete)
  apply (auto simp: call_defs Let_def
         split: option.splits if_splits res.splits bool.splits prod.splits)
  done

lemma transport_name_run:
  "(transport_name (run ops s) \<noteq> None) = (transport_name s \<noteq> None \<or> attached_once ops s)"
proof (induction ops arbitrary: s)
  case Nil
  then show ?case by simp
next
  case (Cons a ops)
  obtain clock p where a: "a = (clock, p)" by (cases a)
  have "(transport_name (run (a # ops) s) \<noteq> None) =
          (transport_name (step clock p s) \<noteq> None \<or> attached_once ops (step clock p s))"
    unfolding a using Cons.IH [of "step clock p s"] by (simp del: step.simps)
  also have "\<dots> = (transport_name s \<noteq> None \<or> attached_once (a # ops) s)"
    unfolding a using transport_name_step [of clock p s]
    by (cases p) (auto simp del: step.simps)
  finally show ?case .
qed

text \<open>
  C3, as the code has it. In every state a session reaches from its construction by any
  history of calls (attach, detach, send, flush, close, delayed close, heartbeat, removal
  and sweep by the container), a CLOSED session has a close reason, and a session with a
  close reason is CLOSED or CLOSING. The converse for CLOSING does not hold:
  \<open>delayed_close\<close> sets the state and records no reason, and \<open>get_close_reason\<close>
  answers \<open>(3000, 'Go away!')\<close> for such a session.
\<close>

theorem close_reason_invariant:
  assumes "s = run ops (Session_init clock rnd raises st sid exp)"
  shows "(state s = CLOSED \<longrightarrow> close_reason s \<noteq> None) \<and>
         (close_reason s \<noteq> None \<longrightarrow> state s = CLOSED \<or> state s = CLOSING)"
  using reason_inv_run [OF reason_inv_init, of ops clock rnd raises st sid exp]
  unfolding assms reason_inv_def .

theorem close_reason_invariant_witness:
  "state (run [(0, OpSetHandler ex_handler_a True), (3, OpClose 3000 ''bye'')] ex_session) = CLOSED \<and>
   close_reason (run [(0, OpSetHandler ex_handler_a True), (3, OpClose 3000 ''bye'')] ex_session)
     \<noteq> None"
proof -
  let ?s = "run [(0, OpSetHandler ex_handler_a True), (3, OpClose 3000 ''bye'')] ex_session"
  have st: "state ?s = CLOSED"
    by (simp add: ex_defs call_defs)
  have "?s = run [(0, OpSetHandler ex_handler_a True), (3, OpClose 3000 ''bye'')]
               (Session_init 0 ''rnd'' False ex_settings (Some ''abc'') (Some (5::int)))"
    by (simp only: ex_session_def)
  from close_reason_invariant [OF this] st show ?thesis
    by blast
qed

text \<open>
  The claim C3 as the specification states it fails: after \<open>delayed_close\<close> on a new
  session the state is CLOSING and no close reason is recorded.
\<close>

theorem closing_without_reason:
  "state (run [(0, OpDelayedClose)] ex_session) = CLOSING \<and>
   close_reason (run [(0, OpDelayedClose)] ex_session) = None"
  by (simp add: ex_defs call_defs)

text \<open>
  C6. For a session in any state of its history that is not CLOSED and has a handler
  attached, two calls of \<open>close\<close> in succession send the handler one disconnect frame
  (with the code and message of the first call) and update the session-closed statistics
  once. The second call returns without an event and leaves every field as the first
  call left it: the state is CLOSED and the close reason is that of the first call.
\<close>

theorem close_idempotent:
  assumes "s = run ops (Session_init clock rnd raises st sid exp)"
      and "state s \<noteq> CLOSED" and "handler s = Some h"
  shows "close code2 message2 (after (close code message s)) =
           (Ret (), after (close code message s), []) \<and>
         state (after (close code message s)) = CLOSED \<and>
         close_reason (after (close code message s)) = Some (code, message) \<and>
         disconnect_frames
           (events (close code message s) @
            events (close code2 message2 (after (close code message s)))) =
           [SendPack (hid h) (ProtoDisconnect code message)] \<and>
         (\<exists>tn. sess_closed_updates
           (events (close code message s) @
            events (close code2 message2 (after (close code message s)))) =
           [SessClosed tn])"
proof -
  have "name_inv s"
    unfolding assms(1) by (rule name_inv_run [OF name_inv_init])
  with assms(3) obtain tn where tn: "transport_name s = Some tn"
    by (auto simp: name_inv_def)
  show ?thesis
    using assms(2,3) tn
    by (simp add: close_cases after_def events_def disconnect_frames_def
        sess_closed_updates_def)
qed

theorem close_idempotent_witness:
  "state (run [(0, OpSetHandler ex_handler_a True)] ex_session) \<noteq> CLOSED \<and>
   handler (run [(0, OpSetHandler ex_handler_a True)] ex_session) = Some ex_handler_a \<and>
   close 1000 ''again''
     (after (close 3000 ''bye'' (run [(0, OpSetHandler ex_handler_a True)] ex_session))) =
     (Ret (), after (close 3000 ''bye'' (run [(0, OpSetHandler ex_handler_a True)] ex_session)),
      []) \<and>
   close_reason
     (after (close 3000 ''bye'' (run [(0, OpSetHandler ex_handler_a True)] ex_session))) =
     Some (3000, ''bye'') \<and>
   disconnect_frames
     (events (close 3000 ''bye'' (run [(0, OpSetHandler ex_handler_a True)] ex_session)) @
      events (close 1000 ''again''
        (after (close 3000 ''bye'' (run [(0, OpSetHandler ex_handler_a True)] ex_session))))) =
     [SendPack 1 (ProtoDisconnect 3000 ''bye'')]"
proof -
  let ?s = "run [(0, OpSetHandler ex_handler_a True)] ex_session"
  have a: "?s = run [(0, OpSetHandler ex_handler_a True)]
                 (Session_init 0 ''rnd'' False ex_settings (Some ''abc'') (Some (5::int)))"
    by (simp only: ex_session_def)
  have b: "state ?s \<noteq> CLOSED" and c: "handler ?s = Some ex_handler_a"
    by (simp_all add: ex_defs call_defs)
  have d: "hid ex_handler_a = 1"
    by (simp add: ex_handler_a_def)
  note r = close_idempotent [OF a b c, of 1000 "''again''" 3000 "''bye''", unfolded d]
  from r b c show ?thesis
    by blast
qed

text \<open>
  C9. When the application's \<open>on_close()\<close> raises on a session that is not CLOSED,
  \<open>close\<close> still leaves the state CLOSED and the close reason equal to the code and
  message it was given. Its result, the session it leaves and its events are those of the
  call where \<open>on_close()\<close> succeeds, but for the line written to the log; with a
  transport name recorded the call returns normally.
\<close>

theorem close_suppresses_on_close_failure:
  assumes "state s \<noteq> CLOSED" and "on_close_raises s"
  shows "state (after (close code message s)) = CLOSED \<and>
         close_reason (after (close code message s)) = Some (code, message) \<and>
         fst (close code message s) = fst (close code message (s\<lparr>on_close_raises := False\<rparr>)) \<and>
         after (close code message s) =
           (after (close code message (s\<lparr>on_close_raises := False\<rparr>)))
             \<lparr>on_close_raises := True\<rparr> \<and>
         filter (\<lambda>e. e \<noteq> LogMsg ''Failed to call on_close().'')
             (events (close code message s)) =
           events (close code message (s\<lparr>on_close_raises := False\<rparr>)) \<and>
         (transport_name s \<noteq> None \<longrightarrow> fst (close code message s) = Ret ())"
  using assms
  by (auto simp: close_cases after_def events_def split: option.splits)

theorem close_suppresses_on_close_failure_witness:
  "state (run [(0, OpSetHandler ex_handler_a True)]
            (Session_init 0 ''rnd'' True ex_settings (Some ''abc'') (Some (5::int)))) \<noteq> CLOSED \<and>
   on_close_raises (run [(0, OpSetHandler ex_handler_a True)]
            (Session_init 0 ''rnd'' True ex_settings (Some ''abc'') (Some (5::int)))) \<and>
   state (after (close 3000 ''bye'' (run [(0, OpSetHandler ex_handler_a True)]
            (Session_init 0 ''rnd'' True ex_settings (Some ''abc'') (Some (5::int)))))) = CLOSED \<and>
   close_reason (after (close 3000 ''bye'' (run [(0, OpSetHandler ex_handler_a True)]
            (Session_init 0 ''rnd'' True ex_settings (Some ''abc'') (Some (5::int)))))) =
     Some (3000, ''bye'') \<and>
   fst (close 3000 ''bye'' (run [(0, OpSetHandler ex_handler_a True)]
            (Session_init 0 ''rnd'' True ex_settings (Some ''abc'') (Some (5::int))))) = Ret ()"
proof -
  let ?s = "run [(0, OpSetHandler ex_handler_a True)]
              (Session_init 0 ''rnd'' True ex_settings (Some ''abc'') (Some (5::int)))"
  have a: "state ?s \<noteq> CLOSED" and b: "on_close_raises ?s"
    and c: "transport_name ?s \<noteq> None"
    by (simp_all add: ex_defs call_defs)
  from close_suppresses_on_close_failure [OF a b, of 3000 "''bye''"] a b c show ?thesis
    by blast
qed

text \<open>
  C10. \<open>transport_name\<close> is defined by the first \<open>set_handler\<close> that succeeds, and
  by nothing else. On a session that is not yet CLOSED, \<open>close\<close> returns without error
  exactly when some \<open>set_handler\<close> of the session's history succeeded. Otherwise it
  raises \<open>AttributeError\<close> with the state already CLOSED and the close reason already
  recorded, after \<open>on_close()\<close> and before any statistics update; \<open>on_delete\<close>,
  forced or not, is that same \<open>close\<close>, so a sweep or a removal that reaches such a
  session raises as well.
\<close>

theorem close_needs_transport_name:
  assumes "s0 = Session_init clock rnd raises st sid exp"
      and "s = run ops s0" and "state s \<noteq> CLOSED"
  shows "(fst (close code message s) = Ret ()) = attached_once ops s0 \<and>
         (\<not> attached_once ops s0 \<longrightarrow>
            close code message s =
              (Raise (AttributeError ''transport_name''),
               s\<lparr>state := CLOSED, close_reason := Some (code, message)\<rparr>,
               OnClose #
               (if on_close_raises s then [LogMsg ''Failed to call on_close().''] else [])) \<and>
            on_delete clock2 forced s = close 3000 ''Go away!'' s)"
proof -
  have tn: "(transport_name s \<noteq> None) = attached_once ops s0"
    unfolding assms(2) using transport_name_run [of ops s0]
    by (simp add: assms(1) Session_init_def)
  have "name_inv s"
    unfolding assms(1,2) by (rule name_inv_run [OF name_inv_init])
  then have h: "\<not> attached_once ops s0 \<Longrightarrow> handler s = None"
    using tn by (auto simp: name_inv_def)
  show ?thesis
    using assms(3) tn h
    by (auto simp: close_cases on_delete_def split: option.splits)
qed

theorem close_needs_transport_name_witness:
  "state (run [(0, OpSendJsonified ''1'' True)] ex_session) \<noteq> CLOSED \<and>
   on_delete 6 False (run [(0, OpSendJsonified ''1'' True)] ex_session) =
     (Raise (AttributeError ''transport_name''),
      (run [(0, OpSendJsonified ''1'' True)] ex_session)
        \<lparr>state := CLOSED, close_reason := Some (3000, ''Go away!'')\<rparr>,
      [OnClose])"
proof -
  let ?s = "run [(0, OpSendJsonified ''1'' True)] ex_session"
  have a: "state ?s \<noteq> CLOSED" and b: "\<not> attached_once [(0, OpSendJsonified ''1'' True)] ex_session"
    and c: "\<not> on_close_raises ?s"
    by (simp_all add: ex_defs call_defs)
  from close_needs_transport_name [OF ex_session_def refl a, of 3000 "''Go away!''" 6 False] b
  have "on_delete 6 False ?s =
          (Raise (AttributeError ''transport_name''),
           ?s\<lparr>state := CLOSED, close_reason := Some (3000, ''Go away!'')\<rparr>,
           OnClose # (if on_close_raises ?s then [LogMsg ''Failed to call on_close().''] else []))"
    by metis
  with a c show ?thesis
    by simp
qed

section \<open>The deferred flush policy\<close>

lemma send_jsonified_deferred:
  assumes "\<not> immediate_flush s"
  shows "send_jsonified f stats s =
           (Ret (), (enqueue f s)\<lparr>pending_flush := True\<rparr>,
            (if pending_flush s then [] else [CallLater CallFlush]) @ stats_events stats 1)"
  using assms by (cases s) (simp add: send_jsonified_def enqueue_def stats_events_def Let_def)

lemma enqueue_fields [simp]:
  "immediate_flush (enqueue f s) = immediate_flush s"
  "handler (enqueue f s) = handler s"
  "pending_flush (enqueue f s) = pending_flush s"
  "send_queue (enqueue f s) = (if send_queue s = [] then f else send_queue s @ '','' @ f)"
  by (simp_all add: enqueue_def Let_def)

lemma enqueue_update:
  "enqueue f s = s\<lparr>send_queue := (if send_queue s = [] then f else send_queue s @ '','' @ f)\<rparr>"
  by (simp add: enqueue_def Let_def)

lemma send_burst_deferred:
  assumes "\<not> immediate_flush s" and "fs \<noteq> []" and "\<forall>f\<in>set fs. f \<noteq> []"
  shows "send_burst fs stats s =
           (s\<lparr>send_queue := (if send_queue s = [] then comma_join fs
                              else send_queue s @ '','' @ comma_join fs),
              pending_flush := True\<rparr>,
            (if pending_flush s then [] else [CallLater CallFlush]) @
            stats_events stats (length fs))"
  using assms
proof (induction fs arbitrary: s)
  case Nil
  then show ?case by simp
next
  case (Cons f fs)
  let ?s1 = "(enqueue f s)\<lparr>pending_flush := True\<rparr>"
  have f: "f \<noteq> []" using Cons.prems by simp
  show ?case
  proof (cases fs)
    case Nil
    then show ?thesis
      using Cons.prems(1) by (simp add: send_jsonified_deferred enqueue_update)
  next
    case (Cons g gs)
    have ih: "send_burst fs stats ?s1 =
           (?s1\<lparr>send_queue := (if send_queue ?s1 = [] then comma_join fs
                              else send_queue ?s1 @ '','' @ comma_join fs),
              pending_flush := True\<rparr>,
            (if pending_flush ?s1 then [] else [CallLater CallFlush]) @
            stats_events stats (length fs))"
      using Cons.IH [of ?s1] Cons.prems Cons by simp
    show ?thesis
      using Cons.prems(1) f Cons ih
      by (simp add: send_jsonified_deferred enqueue_update stats_events_def)
  qed
qed

text \<open>
  C7, as the code has it. Under the deferred policy, on a session with a handler attached,
  an empty send queue and no flush pending, a burst of one or more \<open>send_jsonified\<close>
  calls whose fragments are all non-empty schedules one flush, by its first call, and
  sends no pack; the flush then sends one pack, \<open>a[\<close> followed by the fragments joined
  with commas in call order followed by \<open>]\<close>, and leaves the queue empty with no flush
  pending.
\<close>

theorem deferred_burst_one_frame:
  assumes "\<not> immediate_flush s" and "handler s = Some h"
      and "send_queue s = []" and "\<not> pending_flush s"
      and "fs \<noteq> []" and "\<forall>f\<in>set fs. f \<noteq> []"
  shows "scheduled_flushes (events (send_jsonified (hd fs) stats s)) = [CallLater CallFlush] \<and>
         scheduled_flushes (snd (send_burst fs stats s)) = [CallLater CallFlush] \<and>
         sent_packs (snd (send_burst fs stats s)) = [] \<and>
         events (flush (fst (send_burst fs stats s))) =
           [SendPack (hid h) (Raw (''a['' @ comma_join fs @ '']''))] \<and>
         send_queue (after (flush (fst (send_burst fs stats s)))) = [] \<and>
         pending_flush (after (flush (fst (send_burst fs stats s)))) = False"
proof -
  have ne: "comma_join fs \<noteq> []"
    using assms(5,6) by (induction fs rule: comma_join.induct) auto
  show ?thesis
    using assms(1-4) ne
    by (simp add: send_burst_deferred [OF assms(1,5,6)] send_jsonified_deferred
        events_def after_def flush_def scheduled_flushes_def sent_packs_def stats_events_def)
qed

text \<open>
  The claim C7 as the specification states it fails for an empty fragment: the queue is
  a string, and the source tells "no fragment yet" from the queue being empty. After the
  fragments \<open>''\<close> and \<open>7\<close> the frame is \<open>a[7]\<close>, not \<open>a[,7]\<close>.
\<close>

theorem deferred_burst_empty_fragment:
  "events (flush (fst (send_burst ['''', ''7''] True
      (after (set_handler 0 ex_handler_a True ex_session))))) =
     [SendPack 1 (Raw ''a[7]'')] \<and>
   ''a['' @ comma_join ['''', ''7''] @ '']'' = ''a[,7]''"
  by (simp add: ex_defs call_defs events_def)

theorem deferred_burst_one_frame_witness:
  "events (flush (fst (send_burst [''1'', ''22'', ''3''] True
      (after (set_handler 0 ex_handler_a True ex_session))))) =
     [SendPack 1 (Raw ''a[1,22,3]'')]"
proof -
  let ?s = "after (set_handler 0 ex_handler_a True ex_session)"
  have a: "\<not> immediate_flush ?s" and b: "handler ?s = Some ex_handler_a"
    and c: "send_queue ?s = []" and d: "\<not> pending_flush ?s"
    by (simp_all add: ex_defs call_defs)
  have e: "[''1'', ''22'', ''3''] \<noteq> []" and f: "\<forall>f\<in>set [''1'', ''22'', ''3'']. f \<noteq> []"
    by simp_all
  from deferred_burst_one_frame [OF a b c d e f, of True] show ?thesis
    by (simp add: ex_handler_a_def)
qed

section \<open>The heap operations keep the entries\<close>

lemma siftdown_loop_mset:
  assumes "pos < length heap" and "siftdown_loop st heap startpos pos newitem = (Ret u, heap')"
  shows "mset heap' = mset (heap[pos := newitem])"
  using assms
proof (induction st heap startpos pos newitem rule: siftdown_loop.induct)
  case (1 st heap startpos pos newitem)
  let ?pp = "(pos - 1) div 2"
  show ?case
  proof (cases "pos > startpos")
    case False
    with "1.prems" show ?thesis by simp
  next
    case True
    then have pp: "?pp < pos" by simp
    show ?thesis
    proof (cases "cmp_lt st newitem (heap ! ?pp)")
      case (Raise e)
      with True "1.prems" show ?thesis by simp
    next
      case (Ret b)
      show ?thesis
      proof (cases b)
        case False
        with True Ret "1.prems" show ?thesis by simp
      next
        case b: True
        have rec: "siftdown_loop st (heap[pos := heap ! ?pp]) startpos ?pp newitem = (Ret u, heap')"
          using "1.prems"(2) True Ret b by simp
        have "mset heap' = mset (heap[pos := heap ! ?pp, ?pp := newitem])"
          using "1.IH" [OF True Ret b _ rec] pp "1.prems"(1) by simp
        also have "\<dots> = mset (heap[pos := newitem])"
          using pp "1.prems"(1)
          by (simp add: mset_update nth_list_update)
        finally show ?thesis .
      qed
    qed
  qed
qed

lemma siftup_loop_facts:
  assumes "pos < length heap" and "siftup_loop st heap (length heap) pos = (Ret pos', heap')"
  shows "pos' < length heap \<and> length heap' = length heap \<and>
         mset (heap'[pos' := x]) = mset (heap[pos := x])"
  using assms
proof (induction st heap "length heap" pos arbitrary: heap' rule: siftup_loop.induct)
  case (1 st heap pos)
  show ?case
  proof (cases "2 * pos + 1 < length heap")
    case False
    with "1.prems" show ?thesis by simp
  next
    case True
    show ?thesis
    proof (cases "smaller_child st heap (length heap) (2 * pos + 1)")
      case (Raise e)
      with True "1.prems" show ?thesis by simp
    next
      case (Ret c)
      from smaller_child_range [OF Ret] True have c: "c < length heap" "pos < c"
        by auto
      have rec: "siftup_loop st (heap[pos := heap ! c]) (length (heap[pos := heap ! c])) c = (Ret pos', heap')"
        using "1.prems"(2) True Ret by simp
      have ih: "pos' < length heap \<and> length heap' = length heap \<and>
         mset (heap'[pos' := x]) = mset (heap[pos := heap ! c, c := x])"
        using "1.hyps" [OF True Ret _ _ rec] c by simp
      have "mset (heap[pos := heap ! c, c := x]) = mset (heap[pos := x])"
        using c "1.prems"(1) by (simp add: mset_update nth_list_update)
      with ih show ?thesis by simp
    qed
  qed
qed

declare siftdown_loop.simps [simp del] siftup_loop.simps [simp del]

lemma heappush_mset:
  assumes "heappush st heap item = (Ret u, heap')"
  shows "mset heap' = add_mset item (mset heap)"
proof -
  have "siftdown_loop st (heap @ [item]) 0 (length heap) item = (Ret u, heap')"
    using assms by (simp add: heappush_def siftdown_def)
  from siftdown_loop_mset [OF _ this] show ?thesis by simp
qed

lemma heappop_facts:
  assumes "heappop st heap = (Ret x, heap')"
  shows "heap \<noteq> [] \<and> x = hd heap \<and> mset heap = add_mset x (mset heap')"
proof -
  have ne: "heap \<noteq> []"
    using assms by (auto simp: heappop_def)
  let ?h1 = "butlast heap" and ?l = "last heap"
  have split: "heap = ?h1 @ [?l]" using ne by simp
  show ?thesis
  proof (cases "?h1 = []")
    case True
    then have "heap = [?l]" using split by simp
    with assms ne True show ?thesis
      by (auto simp: heappop_def Let_def)
  next
    case False
    let ?h2 = "?h1[0 := ?l]"
    obtain a as where h1: "?h1 = a # as"
      using False by (cases ?h1) auto
    have len: "0 < length ?h2"
      unfolding h1 by simp
    have x: "x = ?h1 ! 0"
      using assms ne False by (auto simp: heappop_def Let_def split: prod.splits res.splits)
    have hd: "?h1 ! 0 = hd heap"
      using False split by (metis hd_append2 hd_conv_nth)
    obtain u where su: "siftup st ?h2 0 = (Ret u, heap')"
      using assms ne False by (auto simp: heappop_def Let_def split: prod.splits res.splits)
    have h20: "?h2 ! 0 = ?l" unfolding h1 by simp
    have su': "(case siftup_loop st ?h2 (length ?h2) 0 of
                  (Raise e, heap1) \<Rightarrow> (Raise e, heap1)
                | (Ret pos1, heap1) \<Rightarrow> siftdown st (heap1[pos1 := ?l]) 0 pos1) = (Ret u, heap')"
      using su unfolding siftup_def Let_def h20 .
    obtain r1 h3 where sl0: "siftup_loop st ?h2 (length ?h2) 0 = (r1, h3)"
      by (cases "siftup_loop st ?h2 (length ?h2) 0")
    obtain pos1 where r1: "r1 = Ret pos1"
      using su' unfolding sl0 by (cases r1) auto
    have sl: "siftup_loop st ?h2 (length ?h2) 0 = (Ret pos1, h3)"
      using sl0 r1 by simp
    have sd: "siftdown st (h3[pos1 := ?l]) 0 pos1 = (Ret u, heap')"
      using su' unfolding sl by simp
    from siftup_loop_facts [OF len sl, of ?l]
    have f: "pos1 < length ?h2" "length h3 = length ?h2"
      "mset (h3[pos1 := ?l]) = mset (?h2[0 := ?l])" by auto
    have "siftdown_loop st (h3[pos1 := ?l]) 0 pos1 ?l = (Ret u, heap')"
      using sd f by (simp add: siftdown_def)
    from siftdown_loop_mset [OF _ this] f
    have "mset heap' = mset ?h2" by simp
    also have "\<dots> = add_mset ?l (mset ?h1 - {#?h1 ! 0#})"
      unfolding h1 by simp
    finally have m: "mset heap' = add_mset ?l (mset ?h1 - {#?h1 ! 0#})" .
    have "mset heap = add_mset ?l (mset ?h1)"
      using split by (metis mset.simps(2) mset_append add_mset_add_single union_mset_add_mset_right add.right_neutral mset.simps(1))
    moreover have "?h1 ! 0 \<in># mset ?h1"
      unfolding h1 by simp
    ultimately have "mset heap = add_mset (?h1 ! 0) (mset heap')"
      using m by simp
    with ne x hd show ?thesis by simp
  qed
qed

section \<open>Every round of the sweep lowers the measure\<close>

lemma sum_weights_le:
  assumes "\<And>r. r \<in> set q \<Longrightarrow> f r \<le> (g r :: nat)"
  shows "sum_list (map f q) \<le> sum_list (map g q)"
  using assms by (induction q) (auto intro: add_mono)

lemma sum_list_mset_cong:
  "mset q = mset q' \<Longrightarrow> sum_list (map f q) = (sum_list (map f q') :: nat)"
  by (metis mset_map sum_mset_sum_list)

lemma expire_entry_cases:
  "expire_entry clock ct s =
     (if need_reschedule ct s then
        (Ret True, s\<lparr>expiry_date := promoted s, promoted := None\<rparr>, [])
      else
        (case on_delete clock False (s\<lparr>promoted := None\<rparr>) of
           (Raise e, t, evs) \<Rightarrow> (Raise e, t, evs)
         | (Ret u, t, evs) \<Rightarrow>
             if need_reschedule ct t then
               (Ret True, t\<lparr>expiry_date := promoted t, promoted := None\<rparr>, evs)
             else (Ret False, t, evs)))"
  by (simp add: expire_entry_def split: prod.splits res.splits)

lemma expire_entry_True:
  assumes "expire_entry clock ct s = (Ret True, t1, evs)"
  shows "promoted t1 = None \<and> (\<exists>p. expiry_date t1 = Some p \<and> p > ct)"
  using assms
  by (auto simp: expire_entry_def need_reschedule_def Let_def
      split: if_splits prod.splits res.splits option.splits bool.splits)

lemma weight_bounds: "1 \<le> weight ct s" "weight ct s \<le> 2"
  by (simp_all add: weight_def)

lemma pop_and_visit_decreases:
  assumes "pop_and_visit clock ct w = Next w'" and "queue w \<noteq> []"
      and "due ct (store w (hd (queue w)))"
  shows "sweep_measure ct w' < sweep_measure ct w"
proof -
  obtain x q1 where hp: "heappop (store w) (queue w) = (Ret x, q1)"
    using assms(1) by (auto simp: pop_and_visit_def split: prod.splits res.splits)
  from heappop_facts [OF hp] have x: "x = hd (queue w)"
    and ms: "mset (queue w) = add_mset x (mset q1)" by auto
  obtain need t1 evs where ee: "expire_entry clock ct (store w x) = (Ret need, t1, evs)"
    using assms(1) hp by (auto simp: pop_and_visit_def split: prod.splits res.splits)
  let ?st' = "(store w)(x := t1)"
  have wx: "weight ct (store w x) = 2"
    using assms(3) x by (simp add: weight_def)
  have le: "\<And>r. weight ct (?st' r) \<le> weight ct (store w r)"
    using wx weight_bounds(2) [of ct t1] by simp
  have orig: "sweep_measure ct w = weight ct (store w x) + sum_list (map (\<lambda>r. weight ct (store w r)) q1)"
    unfolding sweep_measure_def
    using sum_list_mset_cong [of "queue w" "x # q1" "\<lambda>r. weight ct (store w r)"] ms by simp
  show ?thesis
  proof (cases need)
    case True
    obtain u q2 where ps: "heappush ?st' q1 x = (Ret u, q2)"
      and w': "w' = w\<lparr>queue := q2, store := ?st', trace := trace w @ evs\<rparr>"
      using assms(1) hp ee True
      by (auto simp: pop_and_visit_def Let_def split: prod.splits res.splits)
    have "expire_entry clock ct (store w x) = (Ret True, t1, evs)"
      using ee True by simp
    from expire_entry_True [OF this] have "\<not> due ct t1"
      by (auto simp: due_def)
    then have w1: "weight ct t1 = 1" by (simp add: weight_def)
    have "sweep_measure ct w' = sum_list (map (\<lambda>r. weight ct (?st' r)) (x # q1))"
      unfolding sweep_measure_def w'
      using sum_list_mset_cong [of q2 "x # q1" "\<lambda>r. weight ct (?st' r)"] heappush_mset [OF ps]
      by simp
    also have "\<dots> = 1 + sum_list (map (\<lambda>r. weight ct (?st' r)) q1)"
      using w1 by simp
    also have "\<dots> \<le> 1 + sum_list (map (\<lambda>r. weight ct (store w r)) q1)"
      using sum_weights_le [of q1 "\<lambda>r. weight ct (?st' r)" "\<lambda>r. weight ct (store w r)"] le
      by simp
    finally show ?thesis using orig wx by simp
  next
    case False
    have q': "queue w' = q1" and s': "store w' = ?st'"
      using assms(1) hp ee False
      by (auto simp: pop_and_visit_def Let_def split: prod.splits res.splits option.splits)
    have "sweep_measure ct w' = sum_list (map (\<lambda>r. weight ct (?st' r)) q1)"
      unfolding sweep_measure_def q' s' ..
    also have "\<dots> \<le> sum_list (map (\<lambda>r. weight ct (store w r)) q1)"
      using sum_weights_le [of q1 "\<lambda>r. weight ct (?st' r)" "\<lambda>r. weight ct (store w r)"] le
      by simp
    finally show ?thesis using orig wx by simp
  qed
qed

lemma expire_iter_decreases:
  assumes "expire_iter clock ct w = Next w'"
  shows "sweep_measure ct w' < sweep_measure ct w"
proof -
  from assms obtain x xs where q: "queue w = x # xs"
    by (auto simp: expire_iter_def split: list.splits)
  have "pop_and_visit clock ct w = Next w'" and "due ct (store w x)"
    using assms q
    by (auto simp: expire_iter_def due_def split: option.splits if_splits)
  with pop_and_visit_decreases [of clock ct w w'] q show ?thesis by simp
qed

section \<open>\<open>SessionContainer.expire\<close>\<close>

text \<open>
  The \<open>while\<close> loop of \<open>expire\<close>; it ends because every round lowers
  \<open>sweep_measure\<close>. \<open>expire\<close> itself returns at once on an empty queue and reads
  the clock when it is given no \<open>current_time\<close>.
\<close>

function expire_loop :: "('t::{plus,linorder}) \<Rightarrow> 't \<Rightarrow> 't world \<Rightarrow> unit res \<times> 't world" where
  "expire_loop clock current_time w =
     (case expire_iter clock current_time w of
        Exit r w' \<Rightarrow> (r, w')
      | Next w' \<Rightarrow> expire_loop clock current_time w')"
  by pat_completeness auto
termination
  by (relation "measure (\<lambda>(clock, current_time, w). sweep_measure current_time w)")
     (auto simp: expire_iter_decreases)

declare expire_loop.simps [simp del]

definition expire :: "('t::{plus,linorder}) \<Rightarrow> 't option \<Rightarrow> 't world \<Rightarrow> unit res \<times> 't world" where
  "expire clock current_time w =
     (if queue w = [] then (Ret (), w)
      else expire_loop clock (case current_time of None \<Rightarrow> clock | Some t \<Rightarrow> t) w)"

section \<open>Histories of the container\<close>

text \<open>
  What keeps a session \<open>r\<close> out of the sweep's reach: it has no expiry, the map
  holds it under its id, the heap does not hold it, and no entry of the heap carries its
  id (session ids are unique).
\<close>

definition never_swept :: "nat \<Rightarrow> 't world \<Rightarrow> bool" where
  "never_swept r w =
     (expiry (store w r) = None \<and>
      items w (session_id (store w r)) = Some r \<and>
      r \<notin> set (queue w) \<and>
      (\<forall>q\<in>set (queue w). session_id (store w q) \<noteq> session_id (store w r)))"
text \<open>
  Histories of the whole program: an object is created at a reference, a session is
  added to the container, removed from it by id, the container is swept, or a session
  receives a call. \<open>wstep\<close> gives the state a step leaves, whether it returned or
  raised. The trace records the events of the container's own calls; a call made on a
  session directly changes the session only.
\<close>

datatype 't wop =
    WCreate nat "'t session"
  | WAdd nat
  | WRemove string
  | WExpire "'t option"
  | WCall nat "'t op"

fun wstep :: "('t::{one,plus,uminus,linorder}) \<Rightarrow> 't wop \<Rightarrow> 't world \<Rightarrow> 't world" where
  "wstep clock (WCreate r s) w = w\<lparr>store := (store w)(r := s)\<rparr>"
| "wstep clock (WAdd r) w = snd (add r w)"
| "wstep clock (WRemove sid) w = snd (remove clock sid w)"
| "wstep clock (WExpire current_time) w = snd (expire clock current_time w)"
| "wstep clock (WCall r p) w = w\<lparr>store := (store w)(r := step clock p (store w r))\<rparr>"

text \<open>
  The steps that leave the session \<open>r\<close> alone: no new object takes its reference or
  one the heap holds, no other session is added under its id, and it is not removed by
  its id.
\<close>

fun spares :: "nat \<Rightarrow> 't world \<Rightarrow> 't wop \<Rightarrow> bool" where
  "spares r w (WCreate r' s) = (r' \<noteq> r \<and> r' \<notin> set (queue w))"
| "spares r w (WAdd r') = (r' = r \<or> session_id (store w r') \<noteq> session_id (store w r))"
| "spares r w (WRemove sid) = (sid \<noteq> session_id (store w r))"
| "spares r w (WExpire current_time) = True"
| "spares r w (WCall r' p) = True"

fun wrun :: "(('t::{one,plus,uminus,linorder}) \<times> 't wop) list \<Rightarrow> 't world \<Rightarrow> 't world" where
  "wrun [] w = w"
| "wrun ((clock, p) # rest) w = wrun rest (wstep clock p w)"

fun spared :: "nat \<Rightarrow> (('t::{one,plus,uminus,linorder}) \<times> 't wop) list \<Rightarrow> 't world \<Rightarrow> bool" where
  "spared r [] w = True"
| "spared r ((clock, p) # rest) w = (spares r w p \<and> spared r rest (wstep clock p w))"

text \<open>
  Three sessions at the references 0, 1 and 2: \<open>abc\<close> and \<open>def\<close> with an expiry
  of 5, \<open>ghi\<close> with none. In \<open>ex_removed\<close> the first two were added, attached
  and detached, and \<open>abc\<close> was then removed by \<open>remove\<close>.
\<close>

definition ex_session_b :: "int session" where
  "ex_session_b = Session_init 0 ''rnd'' False ex_settings (Some ''def'') (Some 5)"

definition ex_session_c :: "int session" where
  "ex_session_c = Session_init 0 ''rnd'' False ex_settings (Some ''ghi'') None"

definition ex_world :: "int world" where
  "ex_world =
     \<lparr> store = (\<lambda>r. if r = 0 then ex_session else if r = 1 then ex_session_b else ex_session_c),
       items = Map.empty, queue = [], trace = [] \<rparr>"

definition ex_removed :: "int world" where
  "ex_removed =
     wrun [(0, WAdd 0), (0, WAdd 1),
           (0, WCall 0 (OpSetHandler ex_handler_a True)),
           (0, WCall 1 (OpSetHandler ex_handler_b True)),
           (1, WCall 0 (OpRemoveHandler ex_handler_a)),
           (1, WCall 1 (OpRemoveHandler ex_handler_b)),
           (2, WRemove ''abc'')] ex_world"

definition ex_added :: "int world" where
  "ex_added =
     wrun [(0, WAdd 0),
           (0, WCall 0 (OpSetHandler ex_handler_a True)),
           (1, WCall 0 (OpRemoveHandler ex_handler_a))] ex_world"

lemmas container_defs =
  add_def remove_def get_def expire_def expire_loop.simps expire_iter_def pop_and_visit_def
  heappush_def heappop_def siftdown_def siftup_def siftdown_loop.simps siftup_loop.simps
  smaller_child_def cmp_lt_def Let_def

lemmas ex_world_defs =
  ex_added_def ex_removed_def ex_world_def ex_session_b_def ex_session_c_def

section \<open>What a sweep cannot reach\<close>

lemma siftdown_loop_set:
  assumes "pos < length heap"
  shows "set (snd (siftdown_loop st heap startpos pos newitem)) \<subseteq> insert newitem (set heap)"
  using assms
proof (induction st heap startpos pos newitem rule: siftdown_loop.induct)
  case (1 st heap startpos pos newitem)
  let ?pp = "(pos - 1) div 2"
  have upd: "set (heap[pos := newitem]) \<subseteq> insert newitem (set heap)"
    by (rule set_update_subset_insert)
  show ?case
  proof (cases "pos > startpos")
    case False
    with upd show ?thesis by (subst siftdown_loop.simps) simp
  next
    case True
    then have pp: "?pp < pos" by simp
    show ?thesis
    proof (cases "cmp_lt st newitem (heap ! ?pp)")
      case (Raise e)
      with True show ?thesis by (subst siftdown_loop.simps) auto
    next
      case (Ret b)
      show ?thesis
      proof (cases b)
        case False
        with True Ret upd show ?thesis by (subst siftdown_loop.simps) simp
      next
        case b: True
        have "set (snd (siftdown_loop st (heap[pos := heap ! ?pp]) startpos ?pp newitem))
                \<subseteq> insert newitem (set (heap[pos := heap ! ?pp]))"
          using "1.IH" [OF True Ret b] pp "1.prems" by simp
        moreover have "set (heap[pos := heap ! ?pp]) \<subseteq> set heap"
          using pp "1.prems" set_update_subset_insert [of heap pos "heap ! ?pp"] by auto
        ultimately show ?thesis
          using True Ret b by (subst siftdown_loop.simps) auto
      qed
    qed
  qed
qed

lemma siftup_loop_set:
  assumes "pos < length heap"
  shows "set (snd (siftup_loop st heap (length heap) pos)) \<subseteq> set heap"
  using assms
proof (induction st heap "length heap" pos rule: siftup_loop.induct)
  case (1 st heap pos)
  show ?case
  proof (cases "2 * pos + 1 < length heap")
    case False
    then show ?thesis by (subst siftup_loop.simps) simp
  next
    case True
    show ?thesis
    proof (cases "smaller_child st heap (length heap) (2 * pos + 1)")
      case (Raise e)
      with True show ?thesis by (subst siftup_loop.simps) simp
    next
      case (Ret c)
      from smaller_child_range [OF Ret] True have c: "c < length heap" "pos < c"
        by auto
      have "set (snd (siftup_loop st (heap[pos := heap ! c]) (length (heap[pos := heap ! c])) c))
              \<subseteq> set (heap[pos := heap ! c])"
        using "1.hyps" [OF True Ret] c by simp
      moreover have "set (heap[pos := heap ! c]) \<subseteq> set heap"
        using c set_update_subset_insert [of heap pos "heap ! c"] by auto
      ultimately show ?thesis
        using True Ret by (subst siftup_loop.simps) auto
    qed
  qed
qed

lemma siftup_set:
  assumes "pos < length heap"
  shows "set (snd (siftup st heap pos)) \<subseteq> set heap"
proof (cases "siftup_loop st heap (length heap) pos")
  case (Pair r1 h1)
  have h1: "set h1 \<subseteq> set heap"
    using siftup_loop_set [OF assms, of st] Pair by simp
  show ?thesis
  proof (cases r1)
    case (Raise e)
    with Pair h1 show ?thesis by (simp add: siftup_def)
  next
    case (Ret pos1)
    from siftup_loop_facts [OF assms, of st pos1 h1] Pair Ret
    have p1: "pos1 < length h1" by simp
    let ?x = "heap ! pos"
    have x: "?x \<in> set heap" using assms by simp
    have "set (snd (siftdown_loop st (h1[pos1 := ?x]) pos pos1 ?x))
            \<subseteq> insert ?x (set (h1[pos1 := ?x]))"
      using siftdown_loop_set [of pos1 "h1[pos1 := ?x]"] p1 by simp
    moreover have "set (h1[pos1 := ?x]) \<subseteq> insert ?x (set h1)"
      by (rule set_update_subset_insert)
    ultimately have "set (snd (siftdown_loop st (h1[pos1 := ?x]) pos pos1 ?x)) \<subseteq> set heap"
      using h1 x by auto
    then show ?thesis
      using Pair Ret p1 by (simp add: siftup_def siftdown_def)
  qed
qed

lemma heappush_set: "set (snd (heappush st heap item)) \<subseteq> insert item (set heap)"
  using siftdown_loop_set [of "length heap" "heap @ [item]" st 0 item]
  by (simp add: heappush_def siftdown_def)

lemma heappop_set: "set (snd (heappop st heap)) \<subseteq> set heap"
proof (cases "heap = [] \<or> butlast heap = []")
  case True
  then show ?thesis by (auto simp: heappop_def Let_def)
next
  case False
  then obtain a as where h1: "butlast heap = a # as"
    by (cases "butlast heap") auto
  have "set (snd (siftup st ((butlast heap)[0 := last heap]) 0)) \<subseteq> set ((butlast heap)[0 := last heap])"
    by (rule siftup_set) (simp add: h1 del: length_butlast)
  moreover have "set ((butlast heap)[0 := last heap]) \<subseteq> insert (last heap) (set (butlast heap))"
    by (rule set_update_subset_insert)
  moreover have "insert (last heap) (set (butlast heap)) \<subseteq> set heap"
    using False by (auto dest: in_set_butlastD)
  ultimately have sub: "set (snd (siftup st ((butlast heap)[0 := last heap]) 0)) \<subseteq> set heap"
    by blast
  show ?thesis
  proof (cases "siftup st ((butlast heap)[0 := last heap]) 0")
    case (Pair r2 h2)
    with sub have "set h2 \<subseteq> set heap" by simp
    with Pair False show ?thesis
      by (cases r2) (simp_all add: heappop_def Let_def)
  qed
qed

lemma expire_entry_keeps:
  assumes "expire_entry clock ct s = (res, t1, evs)"
  shows "session_id t1 = session_id s \<and> expiry t1 = expiry s"
  using assms
  by (auto simp: expire_entry_def on_delete_def close_cases promote_def Let_def
      split: if_splits prod.splits res.splits option.splits bool.splits)

lemma pop_and_visit_never_swept:
  assumes "never_swept r w"
  shows "never_swept r (case pop_and_visit clock ct w of Exit res w' \<Rightarrow> w' | Next w' \<Rightarrow> w')"
proof (cases "heappop (store w) (queue w)")
  case (Pair rx q1)
  have q1: "set q1 \<subseteq> set (queue w)"
    using heappop_set [of "store w" "queue w"] Pair by simp
  show ?thesis
  proof (cases rx)
    case (Raise e)
    with Pair q1 assms show ?thesis
      by (auto simp: pop_and_visit_def never_swept_def)
  next
    case (Ret x)
    from heappop_facts [of "store w" "queue w" x q1] Pair Ret
    have x: "x \<in> set (queue w)" by auto
    with assms have xr: "x \<noteq> r" and xid: "session_id (store w x) \<noteq> session_id (store w r)"
      by (auto simp: never_swept_def)
    obtain res t1 evs where ee: "expire_entry clock ct (store w x) = (res, t1, evs)"
      by (cases "expire_entry clock ct (store w x)")
    from expire_entry_keeps [OF ee] have k: "session_id t1 = session_id (store w x)" by simp
    let ?w1 = "w\<lparr>queue := q1, store := (store w)(x := t1), trace := trace w @ evs\<rparr>"
    have w1: "never_swept r ?w1"
      using assms q1 xr xid k by (auto simp: never_swept_def)
    show ?thesis
    proof (cases res)
      case (Raise e)
      with Pair Ret ee w1 show ?thesis by (simp add: pop_and_visit_def)
    next
      case rn: (Ret need)
      show ?thesis
      proof (cases need)
        case True
        obtain r2 q2 where hp: "heappush (store ?w1) (queue ?w1) x = (r2, q2)"
          by (cases "heappush (store ?w1) (queue ?w1) x")
        have "set q2 \<subseteq> insert x (set q1)"
          using heappush_set [of "store ?w1" "queue ?w1" x] hp by simp
        then have "never_swept r (?w1\<lparr>queue := q2\<rparr>)"
          using w1 xr xid k unfolding never_swept_def by fastforce
        with Pair Ret ee rn True hp show ?thesis
          by (cases r2) (simp_all add: pop_and_visit_def Let_def)
      next
        case False
        have "never_swept r (?w1\<lparr>items := (items ?w1)(session_id t1 := None)\<rparr>)"
          using w1 xid k xr by (auto simp: never_swept_def)
        with Pair Ret ee rn False w1 show ?thesis
          by (simp add: pop_and_visit_def Let_def split: option.splits)
      qed
    qed
  qed
qed

lemma expire_iter_never_swept:
  assumes "never_swept r w"
  shows "never_swept r (case expire_iter clock ct w of Exit res w' \<Rightarrow> w' | Next w' \<Rightarrow> w')"
  using assms pop_and_visit_never_swept [OF assms, of clock ct]
  by (auto simp: expire_iter_def split: list.splits option.splits)

lemma expire_loop_never_swept:
  "never_swept r w \<Longrightarrow> never_swept r (snd (expire_loop clock ct w))"
proof (induction clock ct w rule: expire_loop.induct)
  case (1 clock ct w)
  show ?case
  proof (cases "expire_iter clock ct w")
    case (Exit res w')
    with expire_iter_never_swept [OF "1.prems", of clock ct] show ?thesis
      by (subst expire_loop.simps) simp
  next
    case (Next w')
    with expire_iter_never_swept [OF "1.prems", of clock ct] have "never_swept r w'" by simp
    from "1.IH" [OF Next this] Next show ?thesis
      by (subst expire_loop.simps) simp
  qed
qed

lemma expire_never_swept:
  "never_swept r w \<Longrightarrow> never_swept r (snd (expire clock current_time w))"
  by (simp add: expire_def expire_loop_never_swept)
lemma step_keeps: "session_id (step clock p s) = session_id s \<and> expiry (step clock p s) = expiry s"
  apply (cases p)
  apply (simp_all add: after_close after_on_delete)
  apply (auto simp: call_defs close_cases Let_def
         split: option.splits if_splits res.splits bool.splits prod.splits)
  done

lemma remove_entry_keeps:
  "remove_entry clock s = (res, s1, evs) \<Longrightarrow> session_id s1 = session_id s \<and> expiry s1 = expiry s"
  by (auto simp: remove_entry_def on_delete_def close_cases split: if_splits option.splits)

lemma wstep_never_swept:
  assumes "never_swept r w" and "spares r w p"
  shows "never_swept r (wstep clock p w)"
proof (cases p)
  case (WCreate r' s)
  with assms show ?thesis by (auto simp: never_swept_def)
next
  case (WAdd r')
  obtain r2 q2 where hp: "heappush (store w) (queue w) r' = (r2, q2)"
    by (cases "heappush (store w) (queue w) r'")
  have q2: "set q2 \<subseteq> insert r' (set (queue w))"
    using heappush_set [of "store w" "queue w" r'] hp by simp
  show ?thesis
  proof (cases "r' = r")
    case True
    with assms WAdd show ?thesis by (auto simp: never_swept_def add_def Let_def)
  next
    case False
    with assms WAdd have id: "session_id (store w r') \<noteq> session_id (store w r)" by simp
    let ?w1 = "w\<lparr>items := (items w)(session_id (store w r') \<mapsto> r')\<rparr>"
    have w1: "never_swept r ?w1"
      using assms(1) id by (auto simp: never_swept_def)
    have "never_swept r (?w1\<lparr>queue := q2\<rparr>)"
      using assms(1) id False q2 unfolding never_swept_def by fastforce
    with w1 WAdd hp show ?thesis
      by (simp add: add_def Let_def)
  qed
next
  case (WRemove sid)
  with assms have sid: "sid \<noteq> session_id (store w r)" by simp
  show ?thesis
  proof (cases "items w sid")
    case None
    with assms WRemove show ?thesis by (simp add: remove_def)
  next
    case (Some r')
    obtain res s1 evs where re: "remove_entry clock (store w r') = (res, s1, evs)"
      by (cases "remove_entry clock (store w r')")
    from remove_entry_keeps [OF re] have k: "session_id s1 = session_id (store w r')"
      "expiry s1 = expiry (store w r')" by auto
    show ?thesis
      using assms(1) WRemove Some re k sid
      by (cases res) (auto simp: remove_def never_swept_def)
  qed
next
  case (WExpire current_time)
  with assms show ?thesis by (simp add: expire_never_swept)
next
  case (WCall r' p')
  with assms step_keeps [of clock p' "store w r'"] show ?thesis
    by (auto simp: never_swept_def)
qed

lemma wrun_never_swept:
  "never_swept r w \<Longrightarrow> spared r hist w \<Longrightarrow> never_swept r (wrun hist w)"
proof (induction hist arbitrary: w)
  case Nil
  then show ?case by simp
next
  case (Cons a hist)
  obtain clock p where a: "a = (clock, p)" by (cases a)
  from Cons.prems have "never_swept r (wstep clock p w)" and "spared r hist (wstep clock p w)"
    by (auto simp: a wstep_never_swept simp del: wstep.simps)
  from Cons.IH [OF this] show ?case by (simp add: a del: wstep.simps)
qed

lemma pop_and_visit_ids:
  "session_id (store (case pop_and_visit clock ct w of Exit res w' \<Rightarrow> w' | Next w' \<Rightarrow> w') r) =
   session_id (store w r)"
proof (cases "heappop (store w) (queue w)")
  case (Pair rx q1)
  show ?thesis
  proof (cases rx)
    case (Raise e)
    with Pair show ?thesis by (simp add: pop_and_visit_def)
  next
    case (Ret x)
    obtain res t1 evs where ee: "expire_entry clock ct (store w x) = (res, t1, evs)"
      by (cases "expire_entry clock ct (store w x)")
    from expire_entry_keeps [OF ee] have k: "session_id t1 = session_id (store w x)" by simp
    show ?thesis
      using Pair Ret ee k
      by (auto simp: pop_and_visit_def Let_def split: res.splits prod.splits option.splits)
  qed
qed

lemma expire_iter_ids:
  "session_id (store (case expire_iter clock ct w of Exit res w' \<Rightarrow> w' | Next w' \<Rightarrow> w') r) =
   session_id (store w r)"
  using pop_and_visit_ids [of clock ct w r]
  by (auto simp: expire_iter_def split: list.splits option.splits)

lemma expire_loop_ids:
  "session_id (store (snd (expire_loop clock ct w)) r) = session_id (store w r)"
proof (induction clock ct w rule: expire_loop.induct)
  case (1 clock ct w)
  show ?case
  proof (cases "expire_iter clock ct w")
    case (Exit res w')
    with expire_iter_ids [of clock ct w r] show ?thesis
      by (subst expire_loop.simps) simp
  next
    case (Next w')
    with expire_iter_ids [of clock ct w r] "1.IH" [OF Next] show ?thesis
      by (subst expire_loop.simps) simp
  qed
qed

lemma wstep_ids:
  assumes "spares r w p"
  shows "session_id (store (wstep clock p w) r) = session_id (store w r)"
proof (cases p)
  case (WCreate r' s)
  with assms show ?thesis by simp
next
  case (WAdd r')
  then show ?thesis by (simp add: add_def Let_def split: prod.splits)
next
  case (WRemove sid)
  then show ?thesis
    by (auto simp: remove_def split: option.splits prod.splits res.splits
        dest: remove_entry_keeps)
next
  case (WExpire current_time)
  then show ?thesis by (simp add: expire_def expire_loop_ids)
next
  case (WCall r' p')
  with step_keeps [of clock p' "store w r'"] show ?thesis by simp
qed

lemma wrun_ids:
  "spared r hist w \<Longrightarrow> session_id (store (wrun hist w) r) = session_id (store w r)"
proof (induction hist arbitrary: w)
  case Nil
  then show ?case by simp
next
  case (Cons a hist)
  obtain clock p where a: "a = (clock, p)" by (cases a)
  from Cons.prems have s: "spares r w p" and "spared r hist (wstep clock p w)"
    by (auto simp: a simp del: wstep.simps)
  from Cons.IH [OF this(2)] wstep_ids [OF s, of clock] show ?case
    by (simp add: a del: wstep.simps)
qed

text \<open>
  A session with no expiry is not pushed on the heap by \<open>add\<close>: the call only stores it
  in the map. While no entry of the heap carries its id, through every history that leaves
  the session alone (no removal by its id, no other session added under its id) and
  whatever the sweeps of that history do or raise, the session is not in the heap and
  \<open>get\<close> finds it under its id; and one more sweep, at any clock reading and for any
  \<open>current_time\<close>, leaves it there as well.
\<close>

lemma null_expiry_kept:
  assumes "expiry (store w r) = None" and "r \<notin> set (queue w)"
      and "\<forall>q\<in>set (queue w). session_id (store w q) \<noteq> session_id (store w r)"
      and "spared r hist (snd (add r w))"
  shows "add r w = (Ret (), w\<lparr>items := (items w)(session_id (store w r) \<mapsto> r)\<rparr>) \<and>
         r \<notin> set (queue (wrun hist (snd (add r w)))) \<and>
         get (session_id (store w r)) (wrun hist (snd (add r w))) = Some r \<and>
         r \<notin> set (queue (snd (expire clock now (wrun hist (snd (add r w)))))) \<and>
         get (session_id (store w r)) (snd (expire clock now (wrun hist (snd (add r w))))) = Some r"
proof -
  have a: "add r w = (Ret (), w\<lparr>items := (items w)(session_id (store w r) \<mapsto> r)\<rparr>)"
    using assms(1) by (simp add: add_def Let_def)
  have "never_swept r (snd (add r w))"
    using assms(1-3) by (simp add: a never_swept_def)
  from wrun_never_swept [OF this assms(4)] have n: "never_swept r (wrun hist (snd (add r w)))" .
  from expire_never_swept [OF n, of clock now]
  have m: "never_swept r (snd (expire clock now (wrun hist (snd (add r w)))))" .
  have id1: "session_id (store (wrun hist (snd (add r w))) r) = session_id (store w r)"
    using wrun_ids [OF assms(4)] by (simp add: a)
  have id2: "session_id (store (snd (expire clock now (wrun hist (snd (add r w))))) r) =
               session_id (store w r)"
    using id1 by (simp add: expire_def expire_loop_ids)
  show ?thesis
    using a n m id1 id2 by (simp add: never_swept_def get_def)
qed

text \<open>
  The session \<open>abc\<close> added, attached and detached, and removed at time 2: \<open>remove\<close>
  takes it out of the map and leaves it in the heap. Then, at time 3, a new session
  created with no expiry under the id \<open>abc\<close>, and added.
\<close>

definition ex_vacated :: "int world" where
  "ex_vacated =
     wrun [(0, WAdd 0),
           (0, WCall 0 (OpSetHandler ex_handler_a True)),
           (1, WCall 0 (OpRemoveHandler ex_handler_a)),
           (2, WRemove ''abc'')] ex_world"

definition ex_reused :: "int world" where
  "ex_reused =
     wrun [(3, WCreate 3 (Session_init 3 ''rnd'' False ex_settings (Some ''abc'') None)),
           (3, WAdd 3)] ex_vacated"

text \<open>
  C8. \<open>add\<close> does not push a session with no expiry on the heap, and a sweep deletes
  from the map by the id of the entry it drops, so it reaches such a session only
  through another entry under the same id (\<open>null_expiry_kept\<close>). \<open>remove\<close> leaves such
  an entry: the removed session stays in the heap until a sweep drops it. In
  \<open>ex_reused\<close> the id \<open>abc\<close> is free after the removal, the session with no expiry is
  added under it, is not in the heap, and \<open>get\<close> finds it. The sweep at time 10 pops the
  removed session, finds nothing to reschedule, and \<open>del self._items[top.session_id]\<close>
  deletes the new session from the map. The sweep returns normally; the new session was
  not closed and is not found by \<open>get\<close> any more.
\<close>

theorem null_expiry_swept_under_reused_id:
  "get ''abc'' ex_vacated = None \<and>
   queue ex_vacated = [0] \<and>
   session_id (store ex_reused 3) = ''abc'' \<and>
   expiry (store ex_reused 3) = None \<and>
   queue ex_reused = [0] \<and>
   get ''abc'' ex_reused = Some 3 \<and>
   fst (expire 10 None ex_reused) = Ret () \<and>
   get ''abc'' (snd (expire 10 None ex_reused)) = None \<and>
   queue (snd (expire 10 None ex_reused)) = [] \<and>
   state (store (snd (expire 10 None ex_reused)) 3) = CONNECTING"
  by (simp add: ex_vacated_def ex_reused_def ex_world_defs ex_defs call_defs container_defs)

section \<open>The heap invariant\<close>

text \<open>
  The invariant of \<open>heapq\<close>: every entry has an \<open>expiry_date\<close>, and no entry
  is due before its parent, the entry at \<open>(i - 1) >> 1\<close>. \<open>hole_up\<close> and
  \<open>hole_down\<close> are what \<open>_siftdown\<close> and \<open>_siftup\<close> keep while one position of
  the list is still to be filled. \<open>date\<close> reads the \<open>expiry_date\<close> of an entry,
  and 0 for an entry without one, which the invariant excludes.
\<close>

definition par :: "nat \<Rightarrow> nat" where
  "par i = (i - 1) div 2"

definition date :: "('t::zero) store \<Rightarrow> nat \<Rightarrow> 't" where
  "date st r = (case expiry_date (st r) of None \<Rightarrow> 0 | Some d \<Rightarrow> d)"

definition dated :: "'t store \<Rightarrow> nat list \<Rightarrow> bool" where
  "dated st heap = (\<forall>r\<in>set heap. expiry_date (st r) \<noteq> None)"

definition ordered :: "('t::{zero,linorder}) store \<Rightarrow> nat list \<Rightarrow> bool" where
  "ordered st heap =
     (\<forall>i<length heap. 0 < i \<longrightarrow> date st (heap ! par i) \<le> date st (heap ! i))"

definition heap_ok :: "('t::{zero,linorder}) store \<Rightarrow> nat list \<Rightarrow> bool" where
  "heap_ok st heap = (dated st heap \<and> ordered st heap)"

definition hole_up :: "('t::{zero,linorder}) store \<Rightarrow> nat list \<Rightarrow> nat \<Rightarrow> nat \<Rightarrow> bool" where
  "hole_up st heap pos x =
     ((\<forall>i<length heap. 0 < i \<longrightarrow> i \<noteq> pos \<longrightarrow>
         date st (heap[pos := x] ! par i) \<le> date st (heap[pos := x] ! i)) \<and>
      (\<forall>c<length heap. 0 < c \<longrightarrow> par c = pos \<longrightarrow> 0 < pos \<longrightarrow>
         date st (heap ! par pos) \<le> date st (heap ! c)))"

definition hole_down :: "('t::{zero,linorder}) store \<Rightarrow> nat list \<Rightarrow> nat \<Rightarrow> bool" where
  "hole_down st heap pos =
     ((\<forall>i<length heap. 0 < i \<longrightarrow> i \<noteq> pos \<longrightarrow> par i \<noteq> pos \<longrightarrow>
         date st (heap ! par i) \<le> date st (heap ! i)) \<and>
      (\<forall>c<length heap. 0 < c \<longrightarrow> par c = pos \<longrightarrow> 0 < pos \<longrightarrow>
         date st (heap ! par pos) \<le> date st (heap ! c)))"

lemma par_less: "0 < i \<Longrightarrow> par i < i"
  by (simp add: par_def)

lemma par_child: "0 < c \<Longrightarrow> (par c = p) = (c = 2 * p + 1 \<or> c = 2 * p + 2)"
  unfolding par_def by presburger

lemma cmp_lt_dated:
  "expiry_date (st x) \<noteq> None \<Longrightarrow> expiry_date (st y) \<noteq> None \<Longrightarrow>
   cmp_lt st x y = Ret (date st x < date st y)"
  by (auto simp: cmp_lt_def date_def)

lemma hole_up_step:
  assumes "pos < length heap" and "0 < pos" and "hole_up st heap pos x"
      and "date st x < date st (heap ! par pos)"
  shows "hole_up st (heap[pos := heap ! par pos]) (par pos) x"
proof -
  let ?pp = "par pos"
  let ?hx = "heap[pos := x]"
  let ?h2 = "heap[pos := heap ! ?pp]"
  let ?h2x = "?h2[?pp := x]"
  have pp: "?pp < pos" using assms(2) by (rule par_less)
  have A: "\<And>i. i < length heap \<Longrightarrow> 0 < i \<Longrightarrow> i \<noteq> pos \<Longrightarrow>
             date st (?hx ! par i) \<le> date st (?hx ! i)"
    using assms(3) by (simp add: hole_up_def)
  have B: "\<And>c. c < length heap \<Longrightarrow> 0 < c \<Longrightarrow> par c = pos \<Longrightarrow>
             date st (heap ! ?pp) \<le> date st (heap ! c)"
    using assms(2,3) by (simp add: hole_up_def)
  have A2: "date st (?h2x ! par i) \<le> date st (?h2x ! i)"
    if i: "i < length heap" "0 < i" "i \<noteq> ?pp" for i
  proof (cases "i = pos")
    case True
    then show ?thesis
      using assms(1,4) pp by simp
  next
    case False
    have hi: "?h2x ! i = heap ! i"
      using False i by simp
    have pi: "par i < length heap"
      using par_less [OF i(2)] i(1) by simp
    from A [OF i(1,2) False] False
    have a: "date st (?hx ! par i) \<le> date st (heap ! i)" by simp
    show ?thesis
    proof (cases "par i = pos")
      case True
      then have "?h2x ! par i = heap ! ?pp"
        using pp assms(1) by simp
      with B [OF i(1,2) True] hi show ?thesis by simp
    next
      case np: False
      show ?thesis
      proof (cases "par i = ?pp")
        case True
        then have "?h2x ! par i = x" using pp assms(1) by simp
        moreover have "?hx ! par i = heap ! ?pp" using True pp by simp
        ultimately show ?thesis using a assms(4) hi by simp
      next
        case False
        then have "?h2x ! par i = heap ! par i" using np by simp
        moreover have "?hx ! par i = heap ! par i" using np by simp
        ultimately show ?thesis using a hi by simp
      qed
    qed
  qed
  have B2: "date st (?h2 ! par ?pp) \<le> date st (?h2 ! c)"
    if c: "c < length heap" "0 < c" "par c = ?pp" "0 < ?pp" for c
  proof -
    have ppp: "par ?pp < ?pp" using c(4) by (rule par_less)
    have g: "?h2 ! par ?pp = heap ! par ?pp"
      using ppp pp by simp
    have "?pp < length heap" using pp assms(1) by simp
    from A [OF this c(4)] pp ppp
    have up: "date st (heap ! par ?pp) \<le> date st (heap ! ?pp)" by simp
    show ?thesis
    proof (cases "c = pos")
      case True
      then show ?thesis using g up assms(1) by simp
    next
      case False
      from A [OF c(1,2) False] c(3) False pp
      have "date st (heap ! ?pp) \<le> date st (heap ! c)" by simp
      with up g False show ?thesis by simp
    qed
  qed
  show ?thesis
    unfolding hole_up_def using A2 B2 by simp
qed

lemma hole_up_done:
  assumes "pos < length heap" and "hole_up st heap pos x"
      and "pos = 0 \<or> \<not> date st x < date st (heap ! par pos)"
  shows "ordered st (heap[pos := x])"
  unfolding ordered_def
proof (intro allI impI)
  fix i
  assume i: "i < length (heap[pos := x])" "0 < i"
  show "date st (heap[pos := x] ! par i) \<le> date st (heap[pos := x] ! i)"
  proof (cases "i = pos")
    case False
    with assms(2) i show ?thesis by (simp add: hole_up_def)
  next
    case True
    then have "par pos < pos" using i(2) par_less by simp
    then show ?thesis
      using True assms(1,3) i(2) by simp
  qed
qed

lemma siftdown_loop_heap:
  assumes "pos < length heap" and "dated st heap" and "expiry_date (st x) \<noteq> None"
      and "hole_up st heap pos x"
  shows "\<exists>heap'. siftdown_loop st heap 0 pos x = (Ret (), heap') \<and> ordered st heap'"
  using assms
proof (induction st heap "0::nat" pos x rule: siftdown_loop.induct)
  case (1 st heap pos x)
  have pp_def: "(pos - 1) div 2 = par pos" "(pos - Suc 0) div 2 = par pos"
    by (simp_all add: par_def)
  show ?case
  proof (cases "0 < pos")
    case False
    with hole_up_done [OF "1.prems"(1,4)] show ?thesis
      by (subst siftdown_loop.simps) simp
  next
    case True
    have pp: "par pos < pos" using True by (rule par_less)
    then have "heap ! par pos \<in> set heap" using "1.prems"(1) by simp
    then have dp: "expiry_date (st (heap ! par pos)) \<noteq> None"
      using "1.prems"(2) by (simp add: dated_def)
    note cmp = cmp_lt_dated [of st x "heap ! par pos", OF "1.prems"(3) dp]
    show ?thesis
    proof (cases "date st x < date st (heap ! par pos)")
      case False
      with hole_up_done [OF "1.prems"(1,4)] True cmp show ?thesis
        by (subst siftdown_loop.simps) (simp add: pp_def)
    next
      case lt: True
      let ?h2 = "heap[pos := heap ! par pos]"
      have "set ?h2 \<subseteq> insert (heap ! par pos) (set heap)"
        by (rule set_update_subset_insert)
      then have d2: "dated st ?h2"
        using "1.prems"(2) dp by (auto simp: dated_def)
      have len: "par pos < length ?h2" using pp "1.prems"(1) by simp
      from hole_up_step [OF "1.prems"(1) True "1.prems"(4) lt]
      have hu: "hole_up st ?h2 (par pos) x" .
      have "\<exists>heap'. siftdown_loop st ?h2 0 (par pos) x = (Ret (), heap') \<and> ordered st heap'"
        using "1.hyps" [OF True, of "date st x < date st (heap ! par pos)"] cmp lt len d2
          "1.prems"(3) hu
        by (simp add: pp_def)
      then show ?thesis
        using True cmp lt by (subst siftdown_loop.simps) (simp add: pp_def)
    qed
  qed
qed


lemma kids_least:
  assumes "date st (heap ! c) \<le> date st (heap ! (2 * pos + 1))"
      and "2 * pos + 2 < length heap \<longrightarrow> date st (heap ! c) \<le> date st (heap ! (2 * pos + 2))"
  shows "\<forall>s<length heap. 0 < s \<longrightarrow> par s = pos \<longrightarrow> date st (heap ! c) \<le> date st (heap ! s)"
proof (intro allI impI)
  fix s
  assume s: "s < length heap" "0 < s" "par s = pos"
  then have "s = 2 * pos + 1 \<or> s = 2 * pos + 2"
    by (simp add: par_child)
  then show "date st (heap ! c) \<le> date st (heap ! s)"
    using assms s(1) by auto
qed

lemma smaller_child_dated:
  assumes "dated st heap" and "2 * pos + 1 < length heap"
  shows "\<exists>c. smaller_child st heap (length heap) (2 * pos + 1) = Ret c \<and>
             c < length heap \<and> 0 < c \<and> par c = pos \<and>
             (\<forall>s<length heap. 0 < s \<longrightarrow> par s = pos \<longrightarrow>
                date st (heap ! c) \<le> date st (heap ! s))"
proof -
  let ?l = "2 * pos + 1" and ?r = "2 * pos + 2"
  have r: "?l + 1 = ?r" by simp
  have kids: "\<And>s. 0 < s \<Longrightarrow> par s = pos \<Longrightarrow> s = ?l \<or> s = ?r"
    by (simp add: par_child)
  have pl: "par ?l = pos" and pr: "par ?r = pos"
    by (simp_all add: par_def)
  have dl: "expiry_date (st (heap ! ?l)) \<noteq> None"
    using assms by (simp add: dated_def)
  show ?thesis
  proof (cases "?r < length heap")
    case False
    then have "smaller_child st heap (length heap) ?l = Ret ?l"
      by (simp add: smaller_child_def)
    moreover have "\<forall>s<length heap. 0 < s \<longrightarrow> par s = pos \<longrightarrow>
                date st (heap ! ?l) \<le> date st (heap ! s)"
      using False by (intro kids_least) simp_all
    ultimately show ?thesis using assms(2) pl by simp
  next
    case True
    then have dr: "expiry_date (st (heap ! ?r)) \<noteq> None"
      using assms(1) by (simp add: dated_def)
    note cmp = cmp_lt_dated [of st "heap ! ?l" "heap ! ?r", OF dl dr]
    show ?thesis
    proof (cases "date st (heap ! ?l) < date st (heap ! ?r)")
      case lt: True
      then have "smaller_child st heap (length heap) ?l = Ret ?l"
        using True cmp by (simp add: smaller_child_def)
      moreover have "\<forall>s<length heap. 0 < s \<longrightarrow> par s = pos \<longrightarrow>
                date st (heap ! ?l) \<le> date st (heap ! s)"
        using lt by (intro kids_least) (simp_all add: less_imp_le)
      ultimately show ?thesis using assms(2) pl by simp
    next
      case ge: False
      then have "smaller_child st heap (length heap) ?l = Ret ?r"
        using True cmp by (simp add: smaller_child_def)
      moreover have "\<forall>s<length heap. 0 < s \<longrightarrow> par s = pos \<longrightarrow>
                date st (heap ! ?r) \<le> date st (heap ! s)"
        using ge by (intro kids_least) simp_all
      ultimately show ?thesis using True pr by simp
    qed
  qed
qed

lemma hole_down_step:
  assumes "hole_down st heap pos" and "c < length heap" and "0 < c" and "par c = pos"
      and "\<forall>s<length heap. 0 < s \<longrightarrow> par s = pos \<longrightarrow> date st (heap ! c) \<le> date st (heap ! s)"
  shows "hole_down st (heap[pos := heap ! c]) c"
proof -
  let ?h2 = "heap[pos := heap ! c]"
  have pc: "pos < c" using par_less [OF assms(3)] assms(4) by simp
  have A: "\<And>i. i < length heap \<Longrightarrow> 0 < i \<Longrightarrow> i \<noteq> pos \<Longrightarrow> par i \<noteq> pos \<Longrightarrow>
             date st (heap ! par i) \<le> date st (heap ! i)"
    using assms(1) by (simp add: hole_down_def)
  have B: "\<And>d. d < length heap \<Longrightarrow> 0 < d \<Longrightarrow> par d = pos \<Longrightarrow> 0 < pos \<Longrightarrow>
             date st (heap ! par pos) \<le> date st (heap ! d)"
    using assms(1) by (simp add: hole_down_def)
  have A2: "date st (?h2 ! par i) \<le> date st (?h2 ! i)"
    if i: "i < length heap" "0 < i" "i \<noteq> c" "par i \<noteq> c" for i
  proof (cases "i = pos")
    case True
    then have "par pos < pos" using i(2) par_less by simp
    then have "?h2 ! par i = heap ! par pos" using True by simp
    moreover have "?h2 ! i = heap ! c" using True pc assms(2) by simp
    ultimately show ?thesis
      using B [OF assms(2,3,4)] i(2) True by simp
  next
    case False
    then have hi: "?h2 ! i = heap ! i" by simp
    show ?thesis
    proof (cases "par i = pos")
      case True
      then have "?h2 ! par i = heap ! c" using pc assms(2) by simp
      with assms(5) i True hi show ?thesis by simp
    next
      case np: False
      then have "?h2 ! par i = heap ! par i" by simp
      with A [OF i(1,2) False np] hi show ?thesis by simp
    qed
  qed
  have B2: "date st (?h2 ! par c) \<le> date st (?h2 ! d)"
    if d: "d < length heap" "0 < d" "par d = c" for d
  proof -
    have "c < d" using par_less [OF d(2)] d(3) by simp
    then have dp: "d \<noteq> pos" using pc by simp
    have "par d \<noteq> pos" using d(3) pc by simp
    from A [OF d(1,2) dp this] d(3) have "date st (heap ! c) \<le> date st (heap ! d)" by simp
    moreover have "?h2 ! par c = heap ! c" using assms(4) pc assms(2) by simp
    moreover have "?h2 ! d = heap ! d" using dp by simp
    ultimately show ?thesis by simp
  qed
  show ?thesis
    unfolding hole_down_def using A2 B2 by simp
qed

lemma hole_down_leaf:
  assumes "hole_down st heap pos" and "pos < length heap" and "length heap \<le> 2 * pos + 1"
  shows "hole_up st (heap[pos := x]) pos x"
proof -
  have nokid: "\<And>i. i < length heap \<Longrightarrow> 0 < i \<Longrightarrow> par i \<noteq> pos"
    using assms(3) by (auto simp: par_child)
  have "date st (heap[pos := x] ! par i) \<le> date st (heap[pos := x] ! i)"
    if i: "i < length heap" "0 < i" "i \<noteq> pos" for i
    using assms(1) i nokid [OF i(1,2)] by (simp add: hole_down_def)
  then show ?thesis
    unfolding hole_up_def using nokid by simp
qed

lemma siftup_loop_heap:
  assumes "pos < length heap" and "dated st heap" and "hole_down st heap pos"
  shows "\<exists>pos' heap'. siftup_loop st heap (length heap) pos = (Ret pos', heap') \<and>
           hole_down st heap' pos' \<and> length heap' \<le> 2 * pos' + 1 \<and> dated st heap'"
  using assms
proof (induction st heap "length heap" pos rule: siftup_loop.induct)
  case (1 st heap pos)
  show ?case
  proof (cases "2 * pos + 1 < length heap")
    case False
    with "1.prems" show ?thesis
      by (subst siftup_loop.simps) simp
  next
    case True
    from smaller_child_dated [OF "1.prems"(2) True] obtain c where
      sc: "smaller_child st heap (length heap) (2 * pos + 1) = Ret c"
      and c: "c < length heap" "0 < c" "par c = pos"
      and least: "\<forall>s<length heap. 0 < s \<longrightarrow> par s = pos \<longrightarrow>
                date st (heap ! c) \<le> date st (heap ! s)"
      by blast
    let ?h2 = "heap[pos := heap ! c]"
    have "set ?h2 \<subseteq> insert (heap ! c) (set heap)"
      by (rule set_update_subset_insert)
    then have d2: "dated st ?h2"
      using "1.prems"(2) c(1) by (auto simp: dated_def)
    from hole_down_step [OF "1.prems"(3) c least] have hd: "hole_down st ?h2 c" .
    have "\<exists>pos' heap'. siftup_loop st ?h2 (length ?h2) c = (Ret pos', heap') \<and>
           hole_down st heap' pos' \<and> length heap' \<le> 2 * pos' + 1 \<and> dated st heap'"
      using "1.hyps" [OF True sc] c(1) d2 hd by simp
    then show ?thesis
      using True sc by (subst siftup_loop.simps) simp
  qed
qed

lemma heappush_heap:
  assumes "heap_ok st heap" and "expiry_date (st item) \<noteq> None"
  shows "\<exists>heap'. heappush st heap item = (Ret (), heap') \<and> heap_ok st heap'"
proof -
  let ?h = "heap @ [item]" and ?n = "length heap"
  have d: "dated st ?h"
    using assms by (simp add: heap_ok_def dated_def)
  have ord: "\<And>i. i < ?n \<Longrightarrow> 0 < i \<Longrightarrow> date st (heap ! par i) \<le> date st (heap ! i)"
    using assms(1) by (simp add: heap_ok_def ordered_def)
  have hx: "?h[?n := item] = ?h" by simp
  have A: "date st (?h[?n := item] ! par i) \<le> date st (?h[?n := item] ! i)"
    if i: "i < length ?h" "0 < i" "i \<noteq> ?n" for i
  proof -
    have "i < ?n" using i by simp
    moreover from this have "par i < ?n" using par_less [OF i(2)] by simp
    ultimately show ?thesis
      unfolding hx using ord [of i] i(2) by (simp add: nth_append)
  qed
  have B: "\<And>c. c < length ?h \<Longrightarrow> 0 < c \<Longrightarrow> par c = ?n \<Longrightarrow> 0 < ?n \<Longrightarrow> False"
    by (auto simp: par_child)
  have "hole_up st ?h ?n item"
    unfolding hole_up_def using A B by blast
  from siftdown_loop_heap [OF _ d assms(2) this]
  obtain heap' where s: "siftdown_loop st ?h 0 ?n item = (Ret (), heap')" and o: "ordered st heap'"
    by auto
  have "set heap' \<subseteq> insert item (set ?h)"
    using siftdown_loop_set [of ?n ?h st 0 item] s by simp
  then have "dated st heap'"
    using d by (auto simp: dated_def)
  with s o show ?thesis
    by (simp add: heappush_def siftdown_def heap_ok_def)
qed

lemma heappop_heap:
  assumes "heap_ok st heap" and "heap \<noteq> []"
  shows "\<exists>heap'. heappop st heap = (Ret (hd heap), heap') \<and> heap_ok st heap'"
proof (cases "butlast heap = []")
  case True
  then obtain l where hl: "heap = [l]"
    using assms(2) by (cases heap) (auto split: if_splits)
  have "heappop st heap = (Ret (hd heap), [])"
    by (simp add: hl heappop_def)
  then show ?thesis
    by (simp add: heap_ok_def dated_def ordered_def)
next
  case False
  let ?h1 = "butlast heap" and ?l = "last heap"
  let ?h2 = "?h1[0 := ?l]"
  obtain a as where h1: "?h1 = a # as"
    using False by (cases ?h1) auto
  have split: "heap = ?h1 @ [?l]" using assms(2) by simp
  have len2: "length ?h2 = length ?h1" by simp
  have pos0: "0 < length ?h2" unfolding h1 by simp
  have sub: "set ?h2 \<subseteq> set heap"
    using set_update_subset_insert [of ?h1 0 ?l] assms(2) by (auto dest: in_set_butlastD)
  then have d2: "dated st ?h2"
    using assms(1) by (auto simp: heap_ok_def dated_def)
  have ord: "\<And>i. i < length heap \<Longrightarrow> 0 < i \<Longrightarrow> date st (heap ! par i) \<le> date st (heap ! i)"
    using assms(1) by (simp add: heap_ok_def ordered_def)
  have nth1: "\<And>i. i < length ?h1 \<Longrightarrow> ?h1 ! i = heap ! i"
    by (simp add: nth_butlast)
  have A: "date st (?h2 ! par i) \<le> date st (?h2 ! i)"
    if i: "i < length ?h2" "0 < i" "i \<noteq> 0" "par i \<noteq> 0" for i
  proof -
    have i1: "i < length ?h1" using i(1) by simp
    have p1: "par i < length ?h1" using par_less [OF i(2)] i1 by simp
    have "i < length heap" using i1 by simp
    from ord [OF this i(2)] nth1 [OF i1] nth1 [OF p1] i(3,4) show ?thesis
      by simp
  qed
  have "hole_down st ?h2 0"
    unfolding hole_down_def using A by simp
  from siftup_loop_heap [OF pos0 d2 this]
  obtain pos1 h3 where sl: "siftup_loop st ?h2 (length ?h2) 0 = (Ret pos1, h3)"
    and hd3: "hole_down st h3 pos1" and leaf: "length h3 \<le> 2 * pos1 + 1" and d3: "dated st h3"
    by blast
  from siftup_loop_facts [OF pos0 sl] have p1: "pos1 < length h3" by simp
  have dl: "expiry_date (st ?l) \<noteq> None"
    using assms by (simp add: heap_ok_def dated_def)
  let ?h4 = "h3[pos1 := ?l]"
  have d4: "dated st ?h4"
    using d3 dl set_update_subset_insert [of h3 pos1 ?l] by (auto simp: dated_def)
  have hu: "hole_up st ?h4 pos1 ?l"
    by (rule hole_down_leaf [OF hd3 p1 leaf])
  from siftdown_loop_heap [OF _ d4 dl hu] p1
  obtain heap' where sd: "siftdown_loop st ?h4 0 pos1 ?l = (Ret (), heap')"
    and o: "ordered st heap'"
    by auto
  have "set heap' \<subseteq> insert ?l (set ?h4)"
    using siftdown_loop_set [of pos1 ?h4 st 0 ?l] sd p1 by simp
  then have d': "dated st heap'"
    using d4 dl by (auto simp: dated_def)
  have h20: "?h2 ! 0 = ?l" unfolding h1 by simp
  have su: "siftup st ?h2 0 = (Ret (), heap')"
    unfolding siftup_def Let_def h20 sl using sd p1 by (simp add: siftdown_def)
  have "hd heap = a"
    using split unfolding h1 by (metis append_Cons list.sel(1))
  then have "?h1 ! 0 = hd heap"
    unfolding h1 by simp
  then have "heappop st heap = (Ret (hd heap), heap')"
    using assms(2) False su by (simp add: heappop_def Let_def)
  with o d' show ?thesis
    by (simp add: heap_ok_def)
qed

lemma heap_ok_min:
  assumes "heap_ok st heap" and "i < length heap"
  shows "date st (heap ! 0) \<le> date st (heap ! i)"
  using assms(2)
proof (induction i rule: less_induct)
  case (less i)
  show ?case
  proof (cases "i = 0")
    case True
    then show ?thesis by simp
  next
    case False
    then have p: "par i < i" by (simp add: par_less)
    from less.IH [OF p] less.prems p
    have "date st (heap ! 0) \<le> date st (heap ! par i)" by simp
    moreover have "date st (heap ! par i) \<le> date st (heap ! i)"
      using assms(1) less.prems False by (simp add: heap_ok_def ordered_def)
    ultimately show ?thesis by simp
  qed
qed

lemma heap_ok_store:
  assumes "heap_ok st heap" and "\<And>r. r \<in> set heap \<Longrightarrow> expiry_date (st' r) = expiry_date (st r)"
  shows "heap_ok st' heap"
proof -
  have d: "\<And>i. i < length heap \<Longrightarrow> date st' (heap ! i) = date st (heap ! i)"
    using assms(2) by (simp add: date_def)
  have p: "\<And>i. i < length heap \<Longrightarrow> 0 < i \<Longrightarrow> date st' (heap ! par i) = date st (heap ! par i)"
    using d par_less by (metis less_trans)
  show ?thesis
    using assms d p by (auto simp: heap_ok_def dated_def ordered_def)
qed

section \<open>A session in use survives the sweep\<close>

text \<open>
  What the loop of \<open>expire\<close> keeps true of one entry \<open>r\<close> of the heap: the
  heap invariant holds and no entry occurs twice, \<open>r\<close> is in the heap and in the map
  under its id, no other entry carries that id, and the session is the one before the
  sweep, \<open>s0\<close>, or the one after its visit, \<open>v\<close>.
\<close>

definition tracked :: "nat \<Rightarrow> ('t::{zero,linorder}) session \<Rightarrow> 't session \<Rightarrow> 't world \<Rightarrow> bool" where
  "tracked r s0 v w =
     (heap_ok (store w) (queue w) \<and> distinct (queue w) \<and> r \<in> set (queue w) \<and>
      items w (session_id s0) = Some r \<and>
      (\<forall>q\<in>set (queue w). q \<noteq> r \<longrightarrow> session_id (store w q) \<noteq> session_id s0) \<and>
      (store w r = s0 \<or> store w r = v))"

lemma expire_entry_live:
  assumes "handler s \<noteq> None" and "\<not> is_closed s" and "expiry s = Some e"
      and "ct < clock + e"
  shows "expire_entry clock ct s =
           (Ret True,
            s\<lparr>expiry_date :=
                 Some (case promoted s of
                         None \<Rightarrow> clock + e
                       | Some p \<Rightarrow> if p > ct then p else clock + e),
              promoted := None\<rparr>, [])"
  using assms
  by (cases "promoted s")
     (auto simp: expire_entry_def need_reschedule_def on_delete_def promote_def is_closed_def Let_def)


lemma heappop_distinct:
  assumes "heappop st heap = (Ret x, q1)" and "distinct heap"
  shows "distinct q1 \<and> x \<notin> set q1 \<and> set heap = insert x (set q1)"
proof -
  from heappop_facts [OF assms(1)] have m: "mset heap = add_mset x (mset q1)" by simp
  then have m': "mset heap = mset (x # q1)" by simp
  have "distinct (x # q1)"
    using assms(2) mset_eq_imp_distinct_iff [OF m'] by simp
  moreover have "set heap = set (x # q1)"
    by (rule mset_eq_setD [OF m'])
  ultimately show ?thesis by simp
qed

lemma heappush_distinct:
  assumes "heappush st q1 x = (Ret u, q2)" and "distinct q1" and "x \<notin> set q1"
  shows "distinct q2 \<and> set q2 = insert x (set q1)"
proof -
  from heappush_mset [OF assms(1)] have m: "mset q2 = add_mset x (mset q1)" .
  then have m': "mset q2 = mset (x # q1)" by simp
  have "distinct (x # q1)" using assms(2,3) by simp
  then have "distinct q2"
    using mset_eq_imp_distinct_iff [OF m'] by simp
  moreover have "set q2 = set (x # q1)"
    by (rule mset_eq_setD [OF m'])
  ultimately show ?thesis by simp
qed

lemma not_due_iff:
  "(\<not> due ct s) = (promoted s = None \<and> (\<exists>d. expiry_date s = Some d \<and> ct < d))"
  by (auto simp: due_def split: option.splits)

text \<open>What one round of the loop is, by the entry on top.\<close>

lemma expire_iter_cases:
  assumes "queue w = x # xs"
  shows "expire_iter clock ct w =
           (if promoted (store w x) = None \<and> expiry_date (store w x) = None
            then Exit (Raise (AttributeError ''expiry_date'')) w
            else if due ct (store w x) then pop_and_visit clock ct w
            else Exit (Ret ()) w)"
  using assms by (auto simp: expire_iter_def due_def split: option.splits)


lemma renewed_facts:
  assumes "handler s \<noteq> None" and "\<not> is_closed s" and "expiry s = Some e"
      and "ct < clock + e" and "v = after (expire_entry clock ct s)"
  shows "expire_entry clock ct s = (Ret True, v, [])" and "\<not> due ct v"
    and "session_id v = session_id s" and "expiry_date v \<noteq> None"
    and "handler v = handler s" and "state v = state s"
proof -
  note ee = expire_entry_live [OF assms(1-4)]
  have v: "v = s\<lparr>expiry_date :=
                 Some (case promoted s of
                         None \<Rightarrow> clock + e
                       | Some p \<Rightarrow> if p > ct then p else clock + e),
              promoted := None\<rparr>"
    unfolding assms(5) ee after_def by simp
  show "expire_entry clock ct s = (Ret True, v, [])"
    unfolding v by (rule ee)
  show "\<not> due ct v"
    unfolding v using assms(4) by (auto simp: due_def split: option.splits)
  show "session_id v = session_id s" "expiry_date v \<noteq> None"
    "handler v = handler s" "state v = state s"
    unfolding v by simp_all
qed

lemma pop_and_visit_tracked:
  assumes J: "tracked r s0 v w"
      and live: "handler s0 \<noteq> None" "\<not> is_closed s0" "expiry s0 = Some e" "ct < clock + e"
      and v: "v = after (expire_entry clock ct s0)"
      and top: "due ct (store w (hd (queue w)))"
  shows "case pop_and_visit clock ct w of
           Next w' \<Rightarrow> tracked r s0 v w'
         | Exit res w' \<Rightarrow>
             res \<noteq> Ret () \<and> items w' (session_id s0) = Some r \<and> r \<in> set (queue w') \<and>
             (store w' r = s0 \<or> store w' r = v)"
proof -
  note vf = renewed_facts [OF live v]
  from J have hk: "heap_ok (store w) (queue w)" and dq: "distinct (queue w)"
    and rq: "r \<in> set (queue w)" and it: "items w (session_id s0) = Some r"
    and ids: "\<And>q. q \<in> set (queue w) \<Longrightarrow> q \<noteq> r \<Longrightarrow> session_id (store w q) \<noteq> session_id s0"
    and sr: "store w r = s0 \<or> store w r = v"
    by (auto simp: tracked_def)
  have ne: "queue w \<noteq> []" using rq by auto
  let ?x = "hd (queue w)"
  from heappop_heap [OF hk ne] obtain q1 where
    hp: "heappop (store w) (queue w) = (Ret ?x, q1)" and hk1: "heap_ok (store w) q1"
    by blast
  from heappop_distinct [OF hp dq] have d1: "distinct q1" and x1: "?x \<notin> set q1"
    and s1: "set (queue w) = insert ?x (set q1)" by auto
  show ?thesis
  proof (cases "?x = r")
    case True
    have "store w r \<noteq> v" using top True vf(2) by auto
    with sr have s0: "store w r = s0" by simp
    have ee: "expire_entry clock ct (store w ?x) = (Ret True, v, [])"
      using vf(1) s0 True by simp
    let ?w1 = "w\<lparr>queue := q1, store := (store w)(r := v), trace := trace w @ []\<rparr>"
    have hk2: "heap_ok (store ?w1) q1"
      using hk1 x1 True by (intro heap_ok_store [OF hk1]) auto
    have "expiry_date (store ?w1 r) \<noteq> None" using vf(4) by simp
    from heappush_heap [OF hk2 this] obtain q2 where
      ps: "heappush (store ?w1) q1 r = (Ret (), q2)" and hk3: "heap_ok (store ?w1) q2"
      by blast
    from heappush_distinct [OF ps d1] x1 True have d2: "distinct q2"
      and s2: "set q2 = insert r (set q1)" by auto
    have pv: "pop_and_visit clock ct w = Next (?w1\<lparr>queue := q2\<rparr>)"
      using hp ee ps True by (simp add: pop_and_visit_def)
    have "tracked r s0 v (?w1\<lparr>queue := q2\<rparr>)"
      unfolding tracked_def using hk3 d2 s2 it ids s1 True by auto
    with pv show ?thesis by simp
  next
    case False
    then have r1: "r \<in> set q1" using rq s1 by auto
    have xq: "?x \<in> set (queue w)" using ne by simp
    obtain res t1 evs where ee: "expire_entry clock ct (store w ?x) = (res, t1, evs)"
      by (cases "expire_entry clock ct (store w ?x)")
    from expire_entry_keeps [OF ee] ids [OF xq False]
    have idx: "session_id t1 \<noteq> session_id s0" by simp
    let ?w1 = "w\<lparr>queue := q1, store := (store w)(?x := t1), trace := trace w @ evs\<rparr>"
    have hk2: "heap_ok (store ?w1) q1"
      using x1 by (intro heap_ok_store [OF hk1]) auto
    have base: "items ?w1 (session_id s0) = Some r" "r \<in> set (queue ?w1)"
      "store ?w1 r = s0 \<or> store ?w1 r = v"
      using it r1 sr False by auto
    have ids1: "\<And>q. q \<in> set q1 \<Longrightarrow> q \<noteq> r \<Longrightarrow> session_id (store ?w1 q) \<noteq> session_id s0"
      using ids s1 x1 by auto
    show ?thesis
    proof (cases res)
      case (Raise err)
      then have "pop_and_visit clock ct w = Exit (Raise err) ?w1"
        using hp ee by (simp add: pop_and_visit_def)
      with base show ?thesis by simp
    next
      case (Ret need)
      show ?thesis
      proof (cases need)
        case True
        have "expire_entry clock ct (store w ?x) = (Ret True, t1, evs)"
          using ee Ret True by simp
        from expire_entry_True [OF this] have "expiry_date (store ?w1 ?x) \<noteq> None"
          by auto
        from heappush_heap [OF hk2 this] obtain q2 where
          ps: "heappush (store ?w1) q1 ?x = (Ret (), q2)" and hk3: "heap_ok (store ?w1) q2"
          by blast
        from heappush_distinct [OF ps d1 x1] have d2: "distinct q2"
          and s2: "set q2 = insert ?x (set q1)" by auto
        have pv: "pop_and_visit clock ct w = Next (?w1\<lparr>queue := q2\<rparr>)"
          using hp ee Ret True ps by (simp add: pop_and_visit_def)
        have "tracked r s0 v (?w1\<lparr>queue := q2\<rparr>)"
          unfolding tracked_def using hk3 d2 s2 base ids1 idx r1 False by auto
        with pv show ?thesis by simp
      next
        case nf: False
        show ?thesis
        proof (cases "items ?w1 (session_id t1)")
          case None
          then have "pop_and_visit clock ct w = Exit (Raise (KeyError (session_id t1))) ?w1"
            using hp ee Ret nf by (simp add: pop_and_visit_def)
          with base show ?thesis by simp
        next
          case (Some r')
          let ?w2 = "?w1\<lparr>items := (items ?w1)(session_id t1 := None)\<rparr>"
          have pv: "pop_and_visit clock ct w = Next ?w2"
            using hp ee Ret nf Some by (simp add: pop_and_visit_def)
          have "tracked r s0 v ?w2"
            unfolding tracked_def using hk2 d1 base ids1 idx by auto
          with pv show ?thesis by simp
        qed
      qed
    qed
  qed
qed


lemma expire_iter_tracked:
  assumes J: "tracked r s0 v w"
      and live: "handler s0 \<noteq> None" "\<not> is_closed s0" "expiry s0 = Some e" "ct < clock + e"
      and v: "v = after (expire_entry clock ct s0)"
      and past: "expiry_date s0 = Some d" "d \<le> ct"
  shows "case expire_iter clock ct w of
           Next w' \<Rightarrow> tracked r s0 v w'
         | Exit res w' \<Rightarrow>
             items w' (session_id s0) = Some r \<and> r \<in> set (queue w') \<and>
             (store w' r = s0 \<or> store w' r = v) \<and> (res = Ret () \<longrightarrow> store w' r = v)"
proof -
  from J have hk: "heap_ok (store w) (queue w)" and rq: "r \<in> set (queue w)"
    and it: "items w (session_id s0) = Some r" and sr: "store w r = s0 \<or> store w r = v"
    by (auto simp: tracked_def)
  from rq obtain x xs where q: "queue w = x # xs" by (cases "queue w") auto
  note cases = expire_iter_cases [OF q, of clock ct]
  show ?thesis
  proof (cases "promoted (store w x) = None \<and> expiry_date (store w x) = None")
    case True
    with cases it rq sr show ?thesis by simp
  next
    case nodate: False
    show ?thesis
    proof (cases "due ct (store w x)")
      case True
      then have "due ct (store w (hd (queue w)))" by (simp add: q)
      from pop_and_visit_tracked [OF J live v this] cases nodate True show ?thesis
        by (auto split: loop.splits)
    next
      case False
      then obtain dx where dx: "expiry_date (store w x) = Some dx" "ct < dx"
        by (auto simp: not_due_iff)
      from rq obtain i where i: "i < length (queue w)" "queue w ! i = r"
        by (auto simp: in_set_conv_nth)
      from heap_ok_min [OF hk i(1)] have "date (store w) x \<le> date (store w) r"
        by (simp add: q i(2) [symmetric])
      then have "store w r \<noteq> s0"
        using dx past by (auto simp: date_def)
      with sr have "store w r = v" by simp
      with cases nodate False it rq show ?thesis by simp
    qed
  qed
qed

lemma expire_loop_tracked:
  assumes live: "handler s0 \<noteq> None" "\<not> is_closed s0" "expiry s0 = Some e" "ct < clock + e"
      and v: "v = after (expire_entry clock ct s0)"
      and past: "expiry_date s0 = Some d" "d \<le> ct"
  shows "tracked r s0 v w \<Longrightarrow>
         items (snd (expire_loop clock ct w)) (session_id s0) = Some r \<and>
         r \<in> set (queue (snd (expire_loop clock ct w))) \<and>
         (store (snd (expire_loop clock ct w)) r = s0 \<or>
          store (snd (expire_loop clock ct w)) r = v) \<and>
         (fst (expire_loop clock ct w) = Ret () \<longrightarrow> store (snd (expire_loop clock ct w)) r = v)"
  using live v past
proof (induction clock ct w rule: expire_loop.induct)
  case (1 clock ct w)
  note step = expire_iter_tracked [OF "1.prems"(1-8)]
  show ?case
  proof (cases "expire_iter clock ct w")
    case (Exit res w')
    with step show ?thesis
      by (subst (1 2 3 4 5 6) expire_loop.simps) simp
  next
    case (Next w')
    with step have "tracked r s0 v w'" by simp
    from "1.IH" [OF Next this "1.prems"(2-8)] Next show ?thesis
      by (subst (1 2 3 4 5 6) expire_loop.simps) simp
  qed
qed

text \<open>
  Whatever else the heap holds, and whatever the sweep raises on another entry, a session
  in use is not closed and stays in the heap and in the map, provided no other entry of
  the heap carries its id and the deadline \<open>promote\<close> computes is later than \<open>now\<close>.
\<close>

lemma active_session_kept:
  assumes "heap_ok (store w) (queue w)" and "distinct (queue w)" and "r \<in> set (queue w)"
      and "items w (session_id (store w r)) = Some r"
      and "\<forall>q\<in>set (queue w). q \<noteq> r \<longrightarrow> session_id (store w q) \<noteq> session_id (store w r)"
      and "handler (store w r) = Some h" and "\<not> is_closed (store w r)"
      and "expiry (store w r) = Some e"
      and "expiry_date (store w r) = Some d" and "d \<le> now"
      and "now = (case current_time of None \<Rightarrow> clock | Some t \<Rightarrow> t)" and "now < clock + e"
  shows "get (session_id (store w r)) (snd (expire clock current_time w)) = Some r \<and>
         r \<in> set (queue (snd (expire clock current_time w))) \<and>
         session_id (store (snd (expire clock current_time w)) r) = session_id (store w r) \<and>
         handler (store (snd (expire clock current_time w)) r) = Some h \<and>
         state (store (snd (expire clock current_time w)) r) = state (store w r) \<and>
         (fst (expire clock current_time w) = Ret () \<longrightarrow>
            store (snd (expire clock current_time w)) r =
              after (expire_entry clock now (store w r)))"
proof -
  let ?s0 = "store w r" and ?v = "after (expire_entry clock now (store w r))"
  have live: "handler ?s0 \<noteq> None" using assms(6) by simp
  note vf = renewed_facts [OF live assms(7,8,12) refl]
  have J: "tracked r ?s0 ?v w"
    using assms(1-5) by (simp add: tracked_def)
  have ne: "queue w \<noteq> []" using assms(3) by auto
  have ex: "expire clock current_time w = expire_loop clock now w"
    using ne by (simp add: expire_def assms(11))
  note L = expire_loop_tracked [OF live assms(7,8,12) refl assms(9,10) J]
  show ?thesis
    unfolding ex get_def using L vf(3,5,6) assms(6) by auto
qed

text \<open>
  A container the sweep runs through without raising: the heap invariant holds, no entry
  is in the heap twice, every entry of the heap is in the map under its own id (none is
  a session that \<open>remove\<close> took out of the map, and none shares its id with a session
  added later), and every entry has had a handler attached or is closed already, so that
  \<open>close\<close> can read its \<open>transport_name\<close>.
\<close>

definition sweepable :: "('t::{zero,linorder}) world \<Rightarrow> bool" where
  "sweepable w =
     (heap_ok (store w) (queue w) \<and> distinct (queue w) \<and>
      (\<forall>q\<in>set (queue w).
         items w (session_id (store w q)) = Some q \<and>
         (transport_name (store w q) \<noteq> None \<or> state (store w q) = CLOSED)))"

lemma expire_entry_returns:
  assumes "transport_name s \<noteq> None \<or> state s = CLOSED"
  shows "\<exists>need t evs. expire_entry clock ct s = (Ret need, t, evs) \<and>
           session_id t = session_id s \<and>
           (transport_name t \<noteq> None \<or> state t = CLOSED)"
  using assms
  by (auto simp: expire_entry_cases need_reschedule_def on_delete_def close_cases promote_def
      split: option.splits)

lemma pop_and_visit_sweepable:
  assumes S: "sweepable w" and ne: "queue w \<noteq> []"
  shows "\<exists>w'. pop_and_visit clock ct w = Next w' \<and> sweepable w'"
proof -
  from S have hk: "heap_ok (store w) (queue w)" and dq: "distinct (queue w)"
    and reg: "\<And>q. q \<in> set (queue w) \<Longrightarrow> items w (session_id (store w q)) = Some q"
    and att: "\<And>q. q \<in> set (queue w) \<Longrightarrow>
                transport_name (store w q) \<noteq> None \<or> state (store w q) = CLOSED"
    by (auto simp: sweepable_def)
  let ?x = "hd (queue w)"
  have xq: "?x \<in> set (queue w)" using ne by simp
  from heappop_heap [OF hk ne] obtain q1 where
    hp: "heappop (store w) (queue w) = (Ret ?x, q1)" and hk1: "heap_ok (store w) q1"
    by blast
  from heappop_distinct [OF hp dq] have d1: "distinct q1" and x1: "?x \<notin> set q1"
    and s1: "set (queue w) = insert ?x (set q1)" by auto
  from expire_entry_returns [OF att [OF xq], of clock ct] obtain need t1 evs where
    ee: "expire_entry clock ct (store w ?x) = (Ret need, t1, evs)"
    and idx: "session_id t1 = session_id (store w ?x)"
    and at1: "transport_name t1 \<noteq> None \<or> state t1 = CLOSED"
    by blast
  let ?st = "(store w)(?x := t1)"
  let ?w1 = "w\<lparr>queue := q1, store := ?st, trace := trace w @ evs\<rparr>"
  have hk2: "heap_ok ?st q1"
    using x1 by (intro heap_ok_store [OF hk1]) auto
  have reg1: "\<And>q. q \<in> set (queue w) \<Longrightarrow> items w (session_id (?st q)) = Some q"
    using reg idx by auto
  have att1: "\<And>q. q \<in> set (queue w) \<Longrightarrow>
                transport_name (?st q) \<noteq> None \<or> state (?st q) = CLOSED"
    using att at1 by auto
  show ?thesis
  proof (cases need)
    case True
    have "expire_entry clock ct (store w ?x) = (Ret True, t1, evs)"
      using ee True by simp
    from expire_entry_True [OF this] have "expiry_date (?st ?x) \<noteq> None" by auto
    from heappush_heap [OF hk2 this] obtain q2 where
      ps: "heappush ?st q1 ?x = (Ret (), q2)" and hk3: "heap_ok ?st q2"
      by blast
    from heappush_distinct [OF ps d1 x1] have d2: "distinct q2"
      and s2: "set q2 = insert ?x (set q1)" by auto
    have pv: "pop_and_visit clock ct w = Next (?w1\<lparr>queue := q2\<rparr>)"
      using hp ee True ps by (simp add: pop_and_visit_def)
    have "sweepable (?w1\<lparr>queue := q2\<rparr>)"
      unfolding sweepable_def using hk3 d2 s2 s1 reg1 att1 by auto
    with pv show ?thesis by simp
  next
    case False
    have it: "items w (session_id t1) = Some ?x"
      using reg [OF xq] idx by simp
    let ?w2 = "?w1\<lparr>items := (items ?w1)(session_id t1 := None)\<rparr>"
    have pv: "pop_and_visit clock ct w = Next ?w2"
      using hp ee False it by (simp add: pop_and_visit_def)
    have other: "session_id (?st q) \<noteq> session_id t1" if "q \<in> set q1" for q
    proof
      assume "session_id (?st q) = session_id t1"
      with reg1 [of q] that s1 it have "q = ?x" by simp
      with that x1 show False by simp
    qed
    have "sweepable ?w2"
      unfolding sweepable_def using hk2 d1 s1 reg1 att1 other by auto
    with pv show ?thesis by simp
  qed
qed

lemma expire_iter_sweepable:
  assumes "sweepable w"
  shows "case expire_iter clock ct w of
           Next w' \<Rightarrow> sweepable w'
         | Exit res w' \<Rightarrow> res = Ret () \<and> w' = w"
proof (cases "queue w")
  case Nil
  then show ?thesis by (simp add: expire_iter_def)
next
  case (Cons x xs)
  then have ne: "queue w \<noteq> []" by simp
  from assms Cons have "expiry_date (store w x) \<noteq> None"
    by (simp add: sweepable_def heap_ok_def dated_def)
  with pop_and_visit_sweepable [OF assms ne, of clock ct] show ?thesis
    by (auto simp: expire_iter_cases [OF Cons])
qed

lemma expire_loop_sweepable:
  "sweepable w \<Longrightarrow>
   fst (expire_loop clock ct w) = Ret () \<and> sweepable (snd (expire_loop clock ct w))"
proof (induction clock ct w rule: expire_loop.induct)
  case (1 clock ct w)
  note step = expire_iter_sweepable [OF "1.prems", of clock ct]
  show ?case
  proof (cases "expire_iter clock ct w")
    case (Exit res w')
    with step "1.prems" show ?thesis
      by (subst (1 2) expire_loop.simps) simp
  next
    case (Next w')
    with step have "sweepable w'" by simp
    from "1.IH" [OF Next this] Next show ?thesis
      by (subst (1 2) expire_loop.simps) simp
  qed
qed

text \<open>
  The sessions \<open>abc\<close> and \<open>def\<close> added and attached at time 0, \<open>def\<close>
  detached at time 1. In \<open>ex_stale\<close> it is \<open>abc\<close> that is detached, and removed at
  time 2. In \<open>ex_late\<close> the session \<open>abc\<close> is attached at time 4.
\<close>

definition ex_live :: "int world" where
  "ex_live =
     wrun [(0, WAdd 0), (0, WAdd 1),
           (0, WCall 0 (OpSetHandler ex_handler_a True)),
           (0, WCall 1 (OpSetHandler ex_handler_b True)),
           (1, WCall 1 (OpRemoveHandler ex_handler_b))] ex_world"

definition ex_stale :: "int world" where
  "ex_stale =
     wrun [(0, WAdd 0), (0, WAdd 1),
           (0, WCall 0 (OpSetHandler ex_handler_a True)),
           (0, WCall 1 (OpSetHandler ex_handler_b True)),
           (1, WCall 0 (OpRemoveHandler ex_handler_a)),
           (2, WRemove ''abc'')] ex_world"

definition ex_late :: "int world" where
  "ex_late = wrun [(0, WAdd 0), (4, WCall 0 (OpSetHandler ex_handler_a True))] ex_world"

text \<open>
  C2. The container holds a session with an expiry, a handler attached and not closed,
  at or past its expiry deadline at the time \<open>now\<close> of the sweep. The container is
  \<open>sweepable\<close>, and the deadline \<open>promote\<close> computes at the clock reading of the sweep,
  \<open>time.time() + expiry\<close>, is later than \<open>now\<close>. Then \<open>expire\<close> returns normally, and
  it has rescheduled the session: the session is in the heap and \<open>get\<close> finds it under
  its id; it is the session it was (same handler, same state: it was not closed) but for
  its two deadlines; the promoted deadline is cleared, and the expiry deadline is later
  than \<open>now\<close>: it is the promoted deadline the session had when that one was still
  ahead of \<open>now\<close> (the deletion callback is not called then), and otherwise the one
  the deletion callback set through \<open>promote\<close>.

  The hypothesis on the computed deadline is stated on the sum itself, since a positive
  expiry does not ensure it: \<open>now\<close> can be given to \<open>expire\<close> ahead of the clock, and
  the sum is one of floating-point numbers in the source, where a small positive expiry
  can leave the clock reading unchanged. Nothing is assumed of the addition.
\<close>

theorem active_session_rescheduled:
  assumes "sweepable w" and "r \<in> set (queue w)"
      and "handler (store w r) = Some h" and "\<not> is_closed (store w r)"
      and "expiry (store w r) = Some e"
      and "expiry_date (store w r) = Some d" and "d \<le> now"
      and "now = (case current_time of None \<Rightarrow> clock | Some t \<Rightarrow> t)"
      and "now < clock + e"
  shows "fst (expire clock current_time w) = Ret () \<and>
         get (session_id (store w r)) (snd (expire clock current_time w)) = Some r \<and>
         r \<in> set (queue (snd (expire clock current_time w))) \<and>
         handler (store (snd (expire clock current_time w)) r) = Some h \<and>
         state (store (snd (expire clock current_time w)) r) = state (store w r) \<and>
         store (snd (expire clock current_time w)) r =
           (store w r)
             \<lparr>expiry_date :=
                Some (case promoted (store w r) of
                        None \<Rightarrow> clock + e
                      | Some p \<Rightarrow> if p > now then p else clock + e),
              promoted := None\<rparr> \<and>
         now < (case promoted (store w r) of
                  None \<Rightarrow> clock + e
                | Some p \<Rightarrow> if p > now then p else clock + e)"
proof -
  let ?s0 = "store w r" and ?v = "after (expire_entry clock now (store w r))"
  let ?d' = "case promoted ?s0 of None \<Rightarrow> clock + e | Some p \<Rightarrow> if p > now then p else clock + e"
  have live: "handler ?s0 \<noteq> None" using assms(3) by simp
  from assms(1,2) have hk: "heap_ok (store w) (queue w)" and dq: "distinct (queue w)"
    and reg: "\<And>q. q \<in> set (queue w) \<Longrightarrow> items w (session_id (store w q)) = Some q"
    by (auto simp: sweepable_def)
  have ids: "\<forall>q\<in>set (queue w). q \<noteq> r \<longrightarrow> session_id (store w q) \<noteq> session_id ?s0"
    using reg [OF assms(2)] reg by fastforce
  have J: "tracked r ?s0 ?v w"
    using hk dq assms(2) reg [OF assms(2)] ids by (simp add: tracked_def)
  have ne: "queue w \<noteq> []" using assms(2) by auto
  have ex: "expire clock current_time w = expire_loop clock now w"
    using ne by (simp add: expire_def assms(8))
  note L = expire_loop_tracked [OF live assms(4,5,9) refl assms(6,7) J]
  note R = expire_loop_sweepable [OF assms(1), of clock now]
  have v: "?v = ?s0\<lparr>expiry_date := Some ?d', promoted := None\<rparr>"
    unfolding expire_entry_live [OF live assms(4,5,9)] after_def by simp
  have late: "now < ?d'"
    using assms(9) by (simp split: option.splits)
  from L R have st: "store (snd (expire_loop clock now w)) r = ?v" by simp
  show ?thesis
    unfolding ex get_def using L R st v late assms(3) by simp
qed

lemma ex_live_ok:
  "sweepable ex_live" "0 \<in> set (queue ex_live)"
  "handler (store ex_live 0) = Some ex_handler_a" "\<not> is_closed (store ex_live 0)"
  "expiry (store ex_live 0) = Some 5" "expiry_date (store ex_live 0) = Some 5"
  "session_id (store ex_live 0) = ''abc''" "promoted (store ex_live 0) = Some 5"
  "get ''def'' ex_live = Some 1" "get ''abc'' ex_live = Some 0"
  by (simp_all add: ex_live_def ex_world_defs ex_defs call_defs container_defs sweepable_def
      heap_ok_def dated_def ordered_def date_def par_def less_Suc_eq)

theorem active_session_rescheduled_witness:
  "get ''abc'' ex_live = Some 0 \<and>
   get ''def'' ex_live = Some 1 \<and>
   fst (expire 10 None ex_live) = Ret () \<and>
   get ''abc'' (snd (expire 10 None ex_live)) = Some 0 \<and>
   0 \<in> set (queue (snd (expire 10 None ex_live))) \<and>
   handler (store (snd (expire 10 None ex_live)) 0) = Some ex_handler_a \<and>
   promoted (store (snd (expire 10 None ex_live)) 0) = None \<and>
   expiry_date (store (snd (expire 10 None ex_live)) 0) = Some 15"
proof -
  have dn: "(5::int) \<le> 10" and nc: "(10::int) < 10 + 5"
    and n: "(10::int) = (case None of None \<Rightarrow> 10 | Some t \<Rightarrow> t)"
    by simp_all
  note t = active_session_rescheduled
    [OF ex_live_ok(1) ex_live_ok(2) ex_live_ok(3) ex_live_ok(4) ex_live_ok(5) ex_live_ok(6)
        dn n nc, unfolded ex_live_ok(7) ex_live_ok(8)]
  from t have s: "store (snd (expire 10 None ex_live)) 0 =
                    (store ex_live 0)\<lparr>expiry_date := Some 15, promoted := None\<rparr>"
    by simp
  have "promoted (store (snd (expire 10 None ex_live)) 0) = None"
    and "expiry_date (store (snd (expire 10 None ex_live)) 0) = Some 15"
    unfolding s by simp_all
  with t ex_live_ok(3) ex_live_ok(9) ex_live_ok(10) show ?thesis
    by (simp add: get_def)
qed

text \<open>
  As the claim has it, for every such session and every \<open>now\<close> past its deadline, it
  fails on three inputs. In \<open>ex_live\<close> the session \<open>abc\<close> is attached and open, with
  deadline 5; \<open>expire(1000)\<close> while the clock reads 10 promotes it to 15, which is not
  later than 1000, and deletes it from the map without closing it. In \<open>ex_stale\<close> the
  session \<open>def\<close> is attached and open, with deadline 5, and the removed session
  \<open>abc\<close> is on top of the heap: the sweep at time 10 raises \<open>KeyError\<close> on it and
  never visits \<open>def\<close>, which keeps its deadlines. In \<open>ex_late\<close> the session \<open>abc\<close>,
  with deadline 5, was promoted to 9 when it was attached at time 4: the sweep at time 6
  makes 9 its expiry deadline without calling its deletion callback, which would have set
  11.
\<close>

theorem active_session_not_rescheduled:
  "handler (store ex_live 0) = Some ex_handler_a \<and>
   state (store ex_live 0) = CONNECTING \<and>
   expiry (store ex_live 0) = Some 5 \<and>
   expiry_date (store ex_live 0) = Some 5 \<and>
   get ''abc'' ex_live = Some 0 \<and>
   fst (expire 10 (Some 1000) ex_live) = Ret () \<and>
   get ''abc'' (snd (expire 10 (Some 1000) ex_live)) = None \<and>
   queue (snd (expire 10 (Some 1000) ex_live)) = [] \<and>
   handler (store (snd (expire 10 (Some 1000) ex_live)) 0) = Some ex_handler_a \<and>
   state (store (snd (expire 10 (Some 1000) ex_live)) 0) = CONNECTING \<and>
   promoted (store (snd (expire 10 (Some 1000) ex_live)) 0) = Some 15 \<and>
   queue ex_stale = [0, 1] \<and>
   get ''abc'' ex_stale = None \<and>
   handler (store ex_stale 1) = Some ex_handler_b \<and>
   state (store ex_stale 1) = CONNECTING \<and>
   expiry (store ex_stale 1) = Some 5 \<and>
   expiry_date (store ex_stale 1) = Some 5 \<and>
   promoted (store ex_stale 1) = Some 5 \<and>
   fst (expire 10 None ex_stale) = Raise (KeyError ''abc'') \<and>
   queue (snd (expire 10 None ex_stale)) = [1] \<and>
   expiry_date (store (snd (expire 10 None ex_stale)) 1) = Some 5 \<and>
   promoted (store (snd (expire 10 None ex_stale)) 1) = Some 5 \<and>
   handler (store ex_late 0) = Some ex_handler_a \<and>
   expiry_date (store ex_late 0) = Some 5 \<and>
   promoted (store ex_late 0) = Some 9 \<and>
   fst (expire 6 None ex_late) = Ret () \<and>
   trace (snd (expire 6 None ex_late)) = trace ex_late \<and>
   expiry_date (store (snd (expire 6 None ex_late)) 0) = Some 9 \<and>
   promoted (store (snd (expire 6 None ex_late)) 0) = None"
  by (simp add: ex_live_def ex_stale_def ex_late_def ex_world_defs ex_defs call_defs
      container_defs)

section \<open>The sweep, round by round\<close>

lemma expire_loop_unfold:
  "expire_loop clock ct w =
     (case queue w of
        [] \<Rightarrow> (Ret (), w)
      | x # xs \<Rightarrow>
          if promoted (store w x) = None \<and> expiry_date (store w x) = None
          then (Raise (AttributeError ''expiry_date''), w)
          else if \<not> due ct (store w x) then (Ret (), w)
          else (case pop_and_visit clock ct w of
                  Exit res w' \<Rightarrow> (res, w')
                | Next w' \<Rightarrow> expire_loop clock ct w'))"
proof (cases "queue w")
  case Nil
  then show ?thesis
    by (subst expire_loop.simps) (simp add: expire_iter_def)
next
  case (Cons x xs)
  then show ?thesis
    by (subst expire_loop.simps) (simp add: expire_iter_cases [OF Cons])
qed

lemma heap_top_is_minimum:
  assumes "heap_ok (store w) (queue w)" and "q \<in> set (queue w)"
  shows "date (store w) (hd (queue w)) \<le> date (store w) q"
proof -
  from assms(2) obtain i where i: "i < length (queue w)" "queue w ! i = q"
    by (auto simp: in_set_conv_nth)
  have "queue w \<noteq> []" using assms(2) by auto
  then have "hd (queue w) = queue w ! 0" by (simp add: hd_conv_nth)
  with heap_ok_min [OF assms(1) i(1)] i(2) show ?thesis by simp
qed

lemma sweep_round:
  assumes "heap_ok (store w) (queue w)" and "distinct (queue w)"
      and "queue w = x # xs" and "due ct (store w x)"
      and "expire_entry clock ct (store w x) = (Ret need, t1, evs)"
  shows "\<exists>q1. heappop (store w) (queue w) = (Ret x, q1) \<and>
           mset (queue w) = add_mset x (mset q1) \<and>
           (need \<longrightarrow>
              (\<exists>q2. heappush ((store w)(x := t1)) q1 x = (Ret (), q2) \<and>
                 mset q2 = mset (queue w) \<and>
                 expire_iter clock ct w =
                   Next (w\<lparr>queue := q2, store := (store w)(x := t1),
                           trace := trace w @ evs\<rparr>))) \<and>
           (\<not> need \<longrightarrow>
              expire_iter clock ct w =
                (case items w (session_id t1) of
                   None \<Rightarrow>
                     Exit (Raise (KeyError (session_id t1)))
                       (w\<lparr>queue := q1, store := (store w)(x := t1), trace := trace w @ evs\<rparr>)
                 | Some r \<Rightarrow>
                     Next (w\<lparr>queue := q1, store := (store w)(x := t1),
                             trace := trace w @ evs,
                             items := (items w)(session_id t1 := None)\<rparr>)))"
proof -
  have ne: "queue w \<noteq> []" and hd: "hd (queue w) = x"
    using assms(3) by simp_all
  from heappop_heap [OF assms(1) ne] hd obtain q1 where
    hp: "heappop (store w) (queue w) = (Ret x, q1)" and hk1: "heap_ok (store w) q1"
    by auto
  from heappop_facts [OF hp] have m: "mset (queue w) = add_mset x (mset q1)" by simp
  from heappop_distinct [OF hp assms(2)] have d1: "distinct q1" and x1: "x \<notin> set q1"
    by auto
  have dx: "expiry_date (store w x) \<noteq> None"
    using assms(1,3) by (simp add: heap_ok_def dated_def)
  have it: "expire_iter clock ct w = pop_and_visit clock ct w"
    using assms(4) dx by (auto simp: expire_iter_cases [OF assms(3)])
  let ?st = "(store w)(x := t1)"
  have hk2: "heap_ok ?st q1"
    using x1 by (intro heap_ok_store [OF hk1]) auto
  have push: "\<exists>q2. heappush ?st q1 x = (Ret (), q2) \<and> mset q2 = mset (queue w) \<and>
                 expire_iter clock ct w =
                   Next (w\<lparr>queue := q2, store := ?st, trace := trace w @ evs\<rparr>)"
    if need
  proof -
    have "expire_entry clock ct (store w x) = (Ret True, t1, evs)"
      using assms(5) that by simp
    from expire_entry_True [OF this] have "expiry_date (?st x) \<noteq> None" by auto
    from heappush_heap [OF hk2 this] obtain q2 where
      ps: "heappush ?st q1 x = (Ret (), q2)" by blast
    from heappush_mset [OF ps] m have "mset q2 = mset (queue w)" by simp
    moreover have "expire_iter clock ct w =
                   Next (w\<lparr>queue := q2, store := ?st, trace := trace w @ evs\<rparr>)"
      unfolding it using hp assms(5) that ps by (simp add: pop_and_visit_def)
    ultimately show ?thesis using ps by blast
  qed
  have del: "expire_iter clock ct w =
                (case items w (session_id t1) of
                   None \<Rightarrow>
                     Exit (Raise (KeyError (session_id t1)))
                       (w\<lparr>queue := q1, store := ?st, trace := trace w @ evs\<rparr>)
                 | Some r \<Rightarrow>
                     Next (w\<lparr>queue := q1, store := ?st, trace := trace w @ evs,
                             items := (items w)(session_id t1 := None)\<rparr>))"
    if "\<not> need"
    unfolding it using hp assms(5) that
    by (simp add: pop_and_visit_def split: option.splits)
  show ?thesis
    using hp m push del by blast
qed

text \<open>
  C1. On a well-formed container the code is the algorithm of the claim, round by round:
  the loop stops at a top entry with no promoted deadline and an expiry deadline after
  \<open>now\<close>, and the top entry is the minimum of the heap; otherwise the top is popped,
  its deletion callback is given the chance to promote it unless it is already promoted
  past \<open>now\<close>, and it is pushed back with the promoted deadline as its expiry deadline
  or deleted from the map by its id (\<open>expire_loop_unfold\<close>,
  \<open>heap_top_is_minimum\<close>, \<open>expire_entry_cases\<close>, \<open>sweep_round\<close>). The claim speaks
  of every container state, and it fails on a state that \<open>remove\<close> left behind.
  \<open>remove\<close> deletes the session from the map and leaves it in the heap with
  \<open>promoted = -1\<close>, for the sweep to drop. The sweep pops it, finds nothing to
  reschedule, and \<open>del self._items[top.session_id]\<close> raises \<open>KeyError\<close>: the sweep
  ends there. The session \<open>def\<close>, detached and past its deadline, is still in the heap
  and in the map.
\<close>

theorem sweep_after_remove_raises:
  "queue ex_removed = [0, 1] \<and>
   get ''abc'' ex_removed = None \<and>
   promoted (store ex_removed 0) = Some (- 1) \<and>
   fst (expire 10 None ex_removed) = Raise (KeyError ''abc'') \<and>
   queue (snd (expire 10 None ex_removed)) = [1] \<and>
   get ''def'' (snd (expire 10 None ex_removed)) = Some 1 \<and>
   handler (store ex_removed 1) = None \<and>
   expiry_date (store ex_removed 1) = Some 5 \<and>
   promoted (store ex_removed 1) = Some 6"
  by (simp add: ex_world_defs ex_defs call_defs container_defs)

section \<open>Well-formed containers\<close>

text \<open>
  The heap invariant and the absence of duplicates, which \<open>sweepable\<close> and
  \<open>active_session_kept\<close> ask for, hold in the states the program produces, as long as
  a session is added once and under an id no entry of the heap carries. A container is
  well formed when the heap invariant holds, no entry is in the heap twice, no two
  entries of the heap carry the same id, and every session with an expiry has an expiry
  date (as \<open>SessionMixin.__init__\<close> sets it).
\<close>

definition well_formed :: "('t::{zero,linorder}) world \<Rightarrow> bool" where
  "well_formed w =
     (heap_ok (store w) (queue w) \<and> distinct (queue w) \<and>
      inj_on (\<lambda>q. session_id (store w q)) (set (queue w)) \<and>
      (\<forall>q. expiry (store w q) \<noteq> None \<longrightarrow> expiry_date (store w q) \<noteq> None))"

text \<open>
  A proper history creates an object at a reference the heap does not hold, adds a
  session once and under an id no entry of the heap carries, and leaves the loop body of
  the sweep to the container.
\<close>

fun proper_step :: "'t world \<Rightarrow> 't wop \<Rightarrow> bool" where
  "proper_step w (WCreate r s) =
     (r \<notin> set (queue w) \<and> (expiry s \<noteq> None \<longrightarrow> expiry_date s \<noteq> None))"
| "proper_step w (WAdd r) =
     (r \<notin> set (queue w) \<and>
      (\<forall>q\<in>set (queue w). session_id (store w q) \<noteq> session_id (store w r)))"
| "proper_step w (WRemove sid) = True"
| "proper_step w (WExpire current_time) = True"
| "proper_step w (WCall r p) = (case p of OpExpire now \<Rightarrow> False | _ \<Rightarrow> True)"

fun proper :: "(('t::{one,plus,uminus,linorder}) \<times> 't wop) list \<Rightarrow> 't world \<Rightarrow> bool" where
  "proper [] w = True"
| "proper ((clock, p) # rest) w = (proper_step w p \<and> proper rest (wstep clock p w))"

lemma step_keeps_date:
  assumes "\<And>now. p \<noteq> OpExpire now"
  shows "expiry_date (step clock p s) = expiry_date s"
  using assms
  apply (cases p)
  apply (simp_all add: after_close after_on_delete)
  apply (auto simp: call_defs close_cases Let_def
         split: option.splits if_splits res.splits bool.splits prod.splits)
  done

lemma remove_entry_keeps_date:
  "remove_entry clock s = (res, s1, evs) \<Longrightarrow> expiry_date s1 = expiry_date s"
  by (auto simp: remove_entry_def on_delete_def close_cases split: if_splits option.splits)

lemma expire_entry_dated:
  assumes "expire_entry clock ct s = (res, t1, evs)"
      and "expiry s \<noteq> None \<longrightarrow> expiry_date s \<noteq> None"
  shows "expiry t1 \<noteq> None \<longrightarrow> expiry_date t1 \<noteq> None"
  using assms
  by (auto simp: expire_entry_cases need_reschedule_def on_delete_def close_cases promote_def
      split: if_splits prod.splits res.splits option.splits)

lemma pop_and_visit_well_formed:
  assumes "well_formed w" and "queue w \<noteq> []"
  shows "well_formed (case pop_and_visit clock ct w of Exit res w' \<Rightarrow> w' | Next w' \<Rightarrow> w')"
proof -
  from assms(1) have hk: "heap_ok (store w) (queue w)" and dq: "distinct (queue w)"
    and inj: "inj_on (\<lambda>q. session_id (store w q)) (set (queue w))"
    and sd: "\<And>q. expiry (store w q) \<noteq> None \<longrightarrow> expiry_date (store w q) \<noteq> None"
    by (auto simp: well_formed_def)
  let ?x = "hd (queue w)"
  from heappop_heap [OF hk assms(2)] obtain q1 where
    hp: "heappop (store w) (queue w) = (Ret ?x, q1)" and hk1: "heap_ok (store w) q1"
    by blast
  from heappop_distinct [OF hp dq] have d1: "distinct q1" and x1: "?x \<notin> set q1"
    and s1: "set (queue w) = insert ?x (set q1)" by auto
  obtain res t1 evs where ee: "expire_entry clock ct (store w ?x) = (res, t1, evs)"
    by (cases "expire_entry clock ct (store w ?x)")
  from expire_entry_keeps [OF ee] have idx: "session_id t1 = session_id (store w ?x)" by simp
  let ?st = "(store w)(?x := t1)"
  let ?w1 = "w\<lparr>queue := q1, store := ?st, trace := trace w @ evs\<rparr>"
  have hk2: "heap_ok ?st q1"
    using x1 by (intro heap_ok_store [OF hk1]) auto
  have same: "(\<lambda>q. session_id (?st q)) = (\<lambda>q. session_id (store w q))"
    using idx by auto
  have inj1: "inj_on (\<lambda>q. session_id (?st q)) (set q1)"
    unfolding same using inj s1 by (auto intro: inj_on_subset)
  have sd1: "\<And>q. expiry (?st q) \<noteq> None \<longrightarrow> expiry_date (?st q) \<noteq> None"
    using sd expire_entry_dated [OF ee sd [of ?x]] by simp
  have w1: "well_formed ?w1"
    unfolding well_formed_def using hk2 d1 inj1 sd1 by simp
  show ?thesis
  proof (cases res)
    case (Raise err)
    then have "pop_and_visit clock ct w = Exit (Raise err) ?w1"
      using hp ee by (simp add: pop_and_visit_def)
    with w1 show ?thesis by simp
  next
    case (Ret need)
    show ?thesis
    proof (cases need)
      case True
      have "expire_entry clock ct (store w ?x) = (Ret True, t1, evs)"
        using ee Ret True by simp
      from expire_entry_True [OF this] have "expiry_date (?st ?x) \<noteq> None" by auto
      from heappush_heap [OF hk2 this] obtain q2 where
        ps: "heappush ?st q1 ?x = (Ret (), q2)" and hk3: "heap_ok ?st q2"
        by blast
      from heappush_distinct [OF ps d1 x1] have d2: "distinct q2"
        and s2: "set q2 = insert ?x (set q1)" by auto
      have pv: "pop_and_visit clock ct w = Next (?w1\<lparr>queue := q2\<rparr>)"
        using hp ee Ret True ps by (simp add: pop_and_visit_def)
      have "inj_on (\<lambda>q. session_id (?st q)) (set q2)"
        unfolding same s2 using inj s1 by simp
      then have "well_formed (?w1\<lparr>queue := q2\<rparr>)"
        unfolding well_formed_def using hk3 d2 sd1 by simp
      with pv show ?thesis by simp
    next
      case False
      have "well_formed (?w1\<lparr>items := (items ?w1)(session_id t1 := None)\<rparr>)"
        using w1 by (simp add: well_formed_def)
      with w1 hp ee Ret False show ?thesis
        by (cases "items w (session_id t1)") (simp_all add: pop_and_visit_def Let_def)
    qed
  qed
qed

lemma expire_iter_well_formed:
  assumes "well_formed w"
  shows "well_formed (case expire_iter clock ct w of Exit res w' \<Rightarrow> w' | Next w' \<Rightarrow> w')"
proof (cases "queue w")
  case Nil
  with assms show ?thesis by (simp add: expire_iter_def)
next
  case (Cons x xs)
  then have "queue w \<noteq> []" by simp
  from pop_and_visit_well_formed [OF assms this, of clock ct] assms show ?thesis
    by (simp add: expire_iter_cases [OF Cons])
qed

lemma expire_loop_well_formed: "well_formed w \<Longrightarrow> well_formed (snd (expire_loop clock ct w))"
proof (induction clock ct w rule: expire_loop.induct)
  case (1 clock ct w)
  show ?case
  proof (cases "expire_iter clock ct w")
    case (Exit res w')
    with expire_iter_well_formed [OF "1.prems", of clock ct] show ?thesis
      by (subst expire_loop.simps) simp
  next
    case (Next w')
    with expire_iter_well_formed [OF "1.prems", of clock ct] have "well_formed w'" by simp
    from "1.IH" [OF Next this] Next show ?thesis
      by (subst expire_loop.simps) simp
  qed
qed

lemma wstep_well_formed:
  assumes "well_formed w" and "proper_step w p"
  shows "well_formed (wstep clock p w)"
proof (cases p)
  case (WCreate r s)
  from assms(1) have hk: "heap_ok (store w) (queue w)" by (simp add: well_formed_def)
  have "heap_ok ((store w)(r := s)) (queue w)"
    using assms(2) WCreate by (intro heap_ok_store [OF hk]) auto
  moreover have "inj_on (\<lambda>q. session_id (((store w)(r := s)) q)) (set (queue w))"
    using assms WCreate by (auto simp: well_formed_def inj_on_def)
  ultimately show ?thesis
    using assms WCreate by (auto simp: well_formed_def)
next
  case (WAdd r)
  let ?w1 = "w\<lparr>items := (items w)(session_id (store w r) \<mapsto> r)\<rparr>"
  have w1: "well_formed ?w1" using assms(1) by (simp add: well_formed_def)
  show ?thesis
  proof (cases "expiry (store w r) = None")
    case True
    with w1 WAdd show ?thesis by (simp add: add_def Let_def)
  next
    case False
    from assms(1) have hk: "heap_ok (store w) (queue w)" and dq: "distinct (queue w)"
      and inj: "inj_on (\<lambda>q. session_id (store w q)) (set (queue w))"
      and dr: "expiry_date (store w r) \<noteq> None"
      using False by (auto simp: well_formed_def)
    from heappush_heap [OF hk dr] obtain q2 where
      ps: "heappush (store w) (queue w) r = (Ret (), q2)" and hk2: "heap_ok (store w) q2"
      by blast
    from assms(2) WAdd have fresh: "r \<notin> set (queue w)"
      and ids: "\<forall>q\<in>set (queue w). session_id (store w q) \<noteq> session_id (store w r)" by auto
    from heappush_distinct [OF ps dq fresh] have d2: "distinct q2"
      and s2: "set q2 = insert r (set (queue w))" by auto
    have "inj_on (\<lambda>q. session_id (store w q)) (set q2)"
      unfolding s2 using inj ids by (auto simp: inj_on_def)
    then have "well_formed (?w1\<lparr>queue := q2\<rparr>)"
      using w1 hk2 d2 by (simp add: well_formed_def)
    with WAdd False ps show ?thesis by (simp add: add_def Let_def)
  qed
next
  case (WRemove sid)
  show ?thesis
  proof (cases "items w sid")
    case None
    with assms WRemove show ?thesis by (simp add: remove_def)
  next
    case (Some r')
    obtain res s1 evs where re: "remove_entry clock (store w r') = (res, s1, evs)"
      by (cases "remove_entry clock (store w r')")
    from remove_entry_keeps [OF re] remove_entry_keeps_date [OF re]
    have k: "session_id s1 = session_id (store w r')" "expiry s1 = expiry (store w r')"
      "expiry_date s1 = expiry_date (store w r')" by auto
    let ?st = "(store w)(r' := s1)"
    from assms(1) have hk: "heap_ok (store w) (queue w)" by (simp add: well_formed_def)
    have hk2: "heap_ok ?st (queue w)"
      using k by (intro heap_ok_store [OF hk]) auto
    have same: "(\<lambda>q. session_id (?st q)) = (\<lambda>q. session_id (store w q))"
      using k by auto
    have inj2: "inj_on (\<lambda>q. session_id (?st q)) (set (queue w))"
      unfolding same using assms(1) by (simp add: well_formed_def)
    have "well_formed (w\<lparr>store := ?st\<rparr>)"
      using assms(1) hk2 k inj2 by (simp add: well_formed_def)
    then have "well_formed (w\<lparr>store := ?st, trace := trace w @ evs\<rparr>)"
      and "well_formed (w\<lparr>store := ?st, trace := trace w @ evs, items := (items w)(sid := None)\<rparr>)"
      by (simp_all add: well_formed_def)
    with WRemove Some re show ?thesis
      by (cases res) (simp_all add: remove_def)
  qed
next
  case (WExpire current_time)
  with assms(1) show ?thesis by (simp add: expire_def expire_loop_well_formed)
next
  case (WCall r p')
  with assms(2) have ne: "\<And>now. p' \<noteq> OpExpire now" by (cases p') auto
  from step_keeps [of clock p' "store w r"] step_keeps_date [OF ne, of clock "store w r"]
  have k: "session_id (step clock p' (store w r)) = session_id (store w r)"
    "expiry (step clock p' (store w r)) = expiry (store w r)"
    "expiry_date (step clock p' (store w r)) = expiry_date (store w r)" by auto
  let ?st = "(store w)(r := step clock p' (store w r))"
  from assms(1) have hk: "heap_ok (store w) (queue w)" by (simp add: well_formed_def)
  have hk2: "heap_ok ?st (queue w)"
    using k by (intro heap_ok_store [OF hk]) auto
  have same: "(\<lambda>q. session_id (?st q)) = (\<lambda>q. session_id (store w q))"
    using k by auto
  have inj2: "inj_on (\<lambda>q. session_id (?st q)) (set (queue w))"
    unfolding same using assms(1) by (simp add: well_formed_def)
  have "well_formed (w\<lparr>store := ?st\<rparr>)"
    using assms(1) hk2 k inj2 by (simp add: well_formed_def)
  with WCall show ?thesis by simp
qed

lemma wrun_well_formed: "well_formed w \<Longrightarrow> proper hist w \<Longrightarrow> well_formed (wrun hist w)"
proof (induction hist arbitrary: w)
  case Nil
  then show ?case by simp
next
  case (Cons a hist)
  obtain clock p where a: "a = (clock, p)" by (cases a)
  from Cons.prems have "well_formed (wstep clock p w)" and "proper hist (wstep clock p w)"
    by (auto simp: a wstep_well_formed simp del: wstep.simps)
  from Cons.IH [OF this] show ?case by (simp add: a del: wstep.simps)
qed

text \<open>
  \<open>SessionContainer.__init__\<close>, over the objects that exist.
\<close>

definition SessionContainer_init :: "(nat \<Rightarrow> 't session) \<Rightarrow> 't world" where
  "SessionContainer_init st = \<lparr> store = st, items = Map.empty, queue = [], trace = [] \<rparr>"

lemma well_formed_init:
  assumes "\<forall>q. expiry (st q) \<noteq> None \<longrightarrow> expiry_date (st q) \<noteq> None"
  shows "well_formed (SessionContainer_init st)"
  using assms by (simp add: well_formed_def SessionContainer_init_def heap_ok_def dated_def ordered_def)

text \<open>
  Every proper history from the empty container ends in a well-formed one, and in a
  well-formed container an entry of the heap shares its id with no other entry.
\<close>

lemma proper_history_well_formed:
  assumes "\<forall>q. expiry (st q) \<noteq> None \<longrightarrow> expiry_date (st q) \<noteq> None"
      and "proper hist (SessionContainer_init st)"
  shows "well_formed (wrun hist (SessionContainer_init st))"
  by (rule wrun_well_formed [OF well_formed_init [OF assms(1)] assms(2)])

lemma well_formed_premises:
  assumes "well_formed w" and "r \<in> set (queue w)"
  shows "heap_ok (store w) (queue w)" and "distinct (queue w)"
    and "\<forall>q\<in>set (queue w). q \<noteq> r \<longrightarrow> session_id (store w q) \<noteq> session_id (store w r)"
  using assms by (auto simp: well_formed_def inj_on_def)


end
